theory Spec2Isabelle
  imports Complex_Main "HOL-Library.List_Lexorder" "HOL-Library.Multiset"
begin

section \<open>Python values\<close>

text \<open>
  The library manager keeps its books in \<^verbatim>\<open>st.session_state.library\<close>, a Python list of
  dictionaries, and reads that list back from a JSON file without checking its shape.
  The store is therefore modelled as a dynamically typed Python value.

  A Python \<^verbatim>\<open>str\<close> is a sequence of Unicode code points; it is modelled as a list of
  naturals. \<open>str\<close> turns an Isabelle string literal into such a sequence.
  A \<^verbatim>\<open>float\<close> is carried as the text of its JSON literal: its value as an IEEE double is
  not modelled, and every operation that needs the value ends in \<open>NotModelled\<close>.
  A \<^verbatim>\<open>dict\<close> is an association list with pairwise distinct string keys, in insertion
  order.
\<close>

type_synonym pystr = "nat list"

definition str :: "string \<Rightarrow> pystr" where
  "str = map of_char"

datatype pyval =
    PNone
  | PBool bool
  | PInt int
  | PFloat pystr
  | PStr pystr
  | PList "pyval list"
  | PDict "(pystr \<times> pyval) list"

text \<open>
  The exceptions that the functions of the program let escape. \<open>NotModelled\<close> is not an
  exception: it marks a run whose outcome depends on something the model does not cover
  (the value of a float, the order of lists, the text of a value beyond the limits of
  the interpreter).
\<close>

datatype fault = KeyError | TypeError | AttributeError | NotModelled

text \<open>The kind of message a function shows (\<^verbatim>\<open>st.success\<close>, \<^verbatim>\<open>st.warning\<close>, \<^verbatim>\<open>st.error\<close>).\<close>

datatype notice = Success | Warning | Error

text \<open>Sequencing of computations that may raise: the first exception ends the run.\<close>

definition andthen :: "fault + 'a \<Rightarrow> ('a \<Rightarrow> fault + 'b) \<Rightarrow> fault + 'b" where
  "andthen m f = (case m of Inl e \<Rightarrow> Inl e | Inr x \<Rightarrow> f x)"

subsection \<open>Built-in operations\<close>

text \<open>
  \<^verbatim>\<open>str.lower()\<close> follows the case mappings of Unicode, which are not written out here:
  every function that lowers a string takes the mapping as its first argument \<open>lower\<close>,
  and the theorems hold for whatever mapping it is.
\<close>

text \<open>\<^verbatim>\<open>needle in hay\<close> for two strings: \<open>needle\<close> occurs in \<open>hay\<close> as a contiguous run.\<close>

fun contains :: "pystr \<Rightarrow> pystr \<Rightarrow> bool" where
  "contains needle [] = (needle = [])"
| "contains needle (h # hay) = (take (length needle) (h # hay) = needle \<or> contains needle hay)"

text \<open>\<^verbatim>\<open>v[key]\<close> with a string key: only a dictionary can be indexed by a string.\<close>

fun py_getitem :: "pyval \<Rightarrow> pystr \<Rightarrow> fault + pyval" where
  "py_getitem (PDict kvs) key = (case map_of kvs key of None \<Rightarrow> Inl KeyError | Some v \<Rightarrow> Inr v)"
| "py_getitem _ key = Inl TypeError"

text \<open>\<^verbatim>\<open>v.lower()\<close>: only a string has the method.\<close>

fun py_lower :: "(pystr \<Rightarrow> pystr) \<Rightarrow> pyval \<Rightarrow> fault + pystr" where
  "py_lower lower (PStr s) = Inr (lower s)"
| "py_lower lower _ = Inl AttributeError"

text \<open>
  \<^verbatim>\<open>for x in v\<close>: a list yields its elements, a string its characters, a dictionary its
  keys; nothing else can be iterated over.
\<close>

fun py_iter :: "pyval \<Rightarrow> fault + pyval list" where
  "py_iter (PList xs) = Inr xs"
| "py_iter (PStr s) = Inr (map (\<lambda>c. PStr [c]) s)"
| "py_iter (PDict kvs) = Inr (map (\<lambda>kv. PStr (fst kv)) kvs)"
| "py_iter _ = Inl TypeError"

text \<open>\<^verbatim>\<open>len(v)\<close>.\<close>

fun py_len :: "pyval \<Rightarrow> fault + nat" where
  "py_len (PList xs) = Inr (length xs)"
| "py_len (PStr s) = Inr (length s)"
| "py_len (PDict kvs) = Inr (length kvs)"
| "py_len _ = Inl TypeError"

text \<open>
  Truth value of a Python object (\<^verbatim>\<open>if v:\<close>). Whether a float is zero depends on its value
  as a double, so the truth value of a float is outside the model.
\<close>

definition truthy_str :: "pystr \<Rightarrow> bool" where
  "truthy_str s = (s \<noteq> [])"

definition truthy_int :: "int \<Rightarrow> bool" where
  "truthy_int i = (i \<noteq> 0)"

fun py_bool :: "pyval \<Rightarrow> fault + bool" where
  "py_bool PNone = Inr False"
| "py_bool (PBool b) = Inr b"
| "py_bool (PInt i) = Inr (truthy_int i)"
| "py_bool (PFloat lit) = Inl NotModelled"
| "py_bool (PStr s) = Inr (truthy_str s)"
| "py_bool (PList xs) = Inr (xs \<noteq> [])"
| "py_bool (PDict kvs) = Inr (kvs \<noteq> [])"

section \<open>Book management functions\<close>

subsection \<open>\<^verbatim>\<open>add_book\<close>\<close>

text \<open>
  The new dictionary has the six keys in the order of the source. \<open>now\<close> is the text that
  \<^verbatim>\<open>datetime.now().strftime("%Y-%m-%d %H:%M:%S")\<close> returns at the call. \<^verbatim>\<open>append\<close> exists on
  lists only.
\<close>

definition new_book :: "pystr \<Rightarrow> pystr \<Rightarrow> int \<Rightarrow> pystr \<Rightarrow> bool \<Rightarrow> pystr \<Rightarrow> pyval" where
  "new_book title author year genre read_status now =
     PDict [(str ''title'', PStr title),
            (str ''author'', PStr author),
            (str ''year'', PInt year),
            (str ''genre'', PStr genre),
            (str ''read_status'', PBool read_status),
            (str ''added_date'', PStr now)]"

fun py_append :: "pyval \<Rightarrow> pyval \<Rightarrow> fault + pyval" where
  "py_append (PList xs) x = Inr (PList (xs @ [x]))"
| "py_append _ x = Inl AttributeError"

definition add_book ::
  "pystr \<Rightarrow> pystr \<Rightarrow> int \<Rightarrow> pystr \<Rightarrow> bool \<Rightarrow> pystr \<Rightarrow> pyval \<Rightarrow> fault + notice \<times> pyval" where
  "add_book title author year genre read_status now library =
     andthen (py_append library (new_book title author year genre read_status now))
       (\<lambda>library'. Inr (Success, library'))"

text \<open>
  The handler of the form "Add a Book": \<^verbatim>\<open>if title and author and year\<close> tests the truth
  values of two strings and of an integer (the widgets deliver these types). The year
  widget delivers an integer between its \<^verbatim>\<open>min_value\<close> 0 and its \<^verbatim>\<open>max_value\<close>, the
  current year.
\<close>

definition add_book_form ::
  "pystr \<Rightarrow> pystr \<Rightarrow> int \<Rightarrow> pystr \<Rightarrow> bool \<Rightarrow> pystr \<Rightarrow> pyval \<Rightarrow> fault + notice \<times> pyval" where
  "add_book_form title author year genre read_status now library =
     (if truthy_str title \<and> truthy_str author \<and> truthy_int year
      then add_book title author year genre read_status now library
      else Inr (Warning, library))"

subsection \<open>\<^verbatim>\<open>remove_book\<close>\<close>

text \<open>
  The loop over \<^verbatim>\<open>enumerate(library)\<close>: the result is the index of the first book whose
  lowered title equals the lowered argument, if there is one. Reading the title of a book
  can raise.
\<close>

fun remove_loop :: "(pystr \<Rightarrow> pystr) \<Rightarrow> pystr \<Rightarrow> nat \<Rightarrow> pyval list \<Rightarrow> fault + nat option" where
  "remove_loop lower title i [] = Inr None"
| "remove_loop lower title i (book # rest) =
     andthen (py_getitem book (str ''title'')) (\<lambda>t.
     andthen (py_lower lower t) (\<lambda>lt.
       if lt = lower title then Inr (Some i) else remove_loop lower title (Suc i) rest))"

text \<open>\<^verbatim>\<open>library.pop(i)\<close> for an index that the loop has just visited.\<close>

fun py_pop :: "pyval \<Rightarrow> nat \<Rightarrow> fault + pyval" where
  "py_pop (PList xs) i = Inr (PList (take i xs @ drop (Suc i) xs))"
| "py_pop _ i = Inl AttributeError"

definition remove_book :: "(pystr \<Rightarrow> pystr) \<Rightarrow> pystr \<Rightarrow> pyval \<Rightarrow> fault + notice \<times> pyval" where
  "remove_book lower title library =
     andthen (py_iter library) (\<lambda>books.
     andthen (remove_loop lower title 0 books) (\<lambda>found.
       case found of
         Some i \<Rightarrow> andthen (py_pop library i) (\<lambda>library'. Inr (Success, library'))
       | None \<Rightarrow> Inr (Warning, library)))"

subsection \<open>\<^verbatim>\<open>search_books\<close>\<close>

fun search_loop ::
  "(pystr \<Rightarrow> pystr) \<Rightarrow> pystr \<Rightarrow> pystr \<Rightarrow> pyval list \<Rightarrow> fault + pyval list" where
  "search_loop lower search_term search_by [] = Inr []"
| "search_loop lower search_term search_by (book # rest) =
     andthen (py_getitem book search_by) (\<lambda>field.
     andthen (py_lower lower field) (\<lambda>hay.
     andthen (search_loop lower search_term search_by rest) (\<lambda>results.
       Inr (if contains (lower search_term) hay then book # results else results))))"

definition search_books ::
  "(pystr \<Rightarrow> pystr) \<Rightarrow> pystr \<Rightarrow> pystr \<Rightarrow> pyval \<Rightarrow> fault + pyval list" where
  "search_books lower search_term search_by library =
     andthen (py_iter library) (search_loop lower search_term search_by)"

subsection \<open>\<^verbatim>\<open>calculate_statistics\<close>\<close>

text \<open>
  \<^verbatim>\<open>read_books / total_books * 100\<close> is computed in floats: the division of two integers
  gives the double nearest to the quotient, and the product of a double and an integer is
  rounded again. The two operations are the arguments \<open>fdiv\<close> and \<open>fmul\<close>, over a type
  \<open>'f\<close> of floats that is left open; the number 0 of the other branch is an integer.
\<close>

datatype 'f number = IntVal int | FloatVal 'f

record 'f stats =
  total_books :: nat
  read_books :: nat
  unread_books :: int
  read_percentage :: "'f number"

fun count_read :: "pyval list \<Rightarrow> fault + nat" where
  "count_read [] = Inr 0"
| "count_read (book # rest) =
     andthen (py_getitem book (str ''read_status'')) (\<lambda>r.
     andthen (py_bool r) (\<lambda>is_read.
     andthen (count_read rest) (\<lambda>n. Inr (if is_read then Suc n else n))))"

definition calculate_statistics ::
  "(int \<Rightarrow> int \<Rightarrow> 'f) \<Rightarrow> ('f \<Rightarrow> int \<Rightarrow> 'f) \<Rightarrow> pyval \<Rightarrow> fault + 'f stats" where
  "calculate_statistics fdiv fmul library =
     andthen (py_len library) (\<lambda>total.
     andthen (py_iter library) (\<lambda>books.
     andthen (count_read books) (\<lambda>reads.
       Inr \<lparr> total_books = total,
             read_books = reads,
             unread_books = int total - int reads,
             read_percentage =
               (if total > 0 then FloatVal (fmul (fdiv (int reads) (int total)) 100)
                else IntVal 0) \<rparr>)))"

subsection \<open>The sort of "View All Books"\<close>

datatype sort_by = RecentlyAdded | Title | Author | Year

text \<open>
  \<^verbatim>\<open>list.sort(key=..., reverse=...)\<close>. Python first computes the key of every element, in
  order; a key function that raises ends the sort. It then sorts by the keys with a stable
  algorithm; with \<^verbatim>\<open>reverse=True\<close> it reverses the list, sorts, and reverses the result, so
  that equal keys keep their order. A stable sort has only one possible result, so the
  insertion sort \<open>sort_key\<close> stands for it.

  Strings are ordered among themselves (by code point), and so are integers, with
  \<^verbatim>\<open>False\<close> and \<^verbatim>\<open>True\<close> counting as 0 and 1. With two elements or more, keys that are neither
  all strings nor all integers raise \<^verbatim>\<open>TypeError\<close> at a comparison, unless floats or lists
  are among them, whose order is not modelled. A list of at most one element is never
  compared.
\<close>

fun as_str :: "pyval \<Rightarrow> pystr option" where
  "as_str (PStr s) = Some s"
| "as_str _ = None"

fun as_int :: "pyval \<Rightarrow> int option" where
  "as_int (PInt i) = Some i"
| "as_int (PBool b) = Some (if b then 1 else 0)"
| "as_int _ = None"

fun float_or_list :: "pyval \<Rightarrow> bool" where
  "float_or_list (PFloat lit) = True"
| "float_or_list (PList xs) = True"
| "float_or_list _ = False"

fun map_raising :: "('a \<Rightarrow> fault + 'b) \<Rightarrow> 'a list \<Rightarrow> fault + 'b list" where
  "map_raising f [] = Inr []"
| "map_raising f (x # xs) = andthen (f x) (\<lambda>y. andthen (map_raising f xs) (\<lambda>ys. Inr (y # ys)))"

definition sort_pairs :: "('k::linorder \<times> pyval) list \<Rightarrow> bool \<Rightarrow> pyval list" where
  "sort_pairs kxs reverse =
     map snd (if reverse then rev (sort_key fst (rev kxs)) else sort_key fst kxs)"

definition list_sort :: "(pyval \<Rightarrow> fault + pyval) \<Rightarrow> bool \<Rightarrow> pyval list \<Rightarrow> fault + pyval list" where
  "list_sort key reverse xs =
     andthen (map_raising key xs) (\<lambda>ks.
       if length xs \<le> 1 then Inr xs
       else case those (map as_str ks) of
         Some ss \<Rightarrow> Inr (sort_pairs (zip ss xs) reverse)
       | None \<Rightarrow>
          (case those (map as_int ks) of
             Some ns \<Rightarrow> Inr (sort_pairs (zip ns xs) reverse)
           | None \<Rightarrow> if \<exists>k \<in> set ks. float_or_list k then Inl NotModelled else Inl TypeError))"

text \<open>The four branches of the handler, applied to the elements of \<^verbatim>\<open>sorted_library\<close>.\<close>

definition view_sort ::
  "(pystr \<Rightarrow> pystr) \<Rightarrow> sort_by \<Rightarrow> bool \<Rightarrow> pyval list \<Rightarrow> fault + pyval list" where
  "view_sort lower sort_by reverse_sort sorted_library =
     (case sort_by of
        RecentlyAdded \<Rightarrow>
          list_sort (\<lambda>x. py_getitem x (str ''added_date'')) (\<not> reverse_sort) sorted_library
      | Title \<Rightarrow>
          list_sort (\<lambda>x. andthen (py_getitem x (str ''title'')) (\<lambda>t.
                          andthen (py_lower lower t) (\<lambda>s. Inr (PStr s)))) reverse_sort sorted_library
      | Author \<Rightarrow>
          list_sort (\<lambda>x. andthen (py_getitem x (str ''author'')) (\<lambda>t.
                          andthen (py_lower lower t) (\<lambda>s. Inr (PStr s)))) reverse_sort sorted_library
      | Year \<Rightarrow>
          list_sort (\<lambda>x. py_getitem x (str ''year'')) reverse_sort sorted_library)"

text \<open>
  \<^verbatim>\<open>sort\<close> changes a list object in place, and \<^verbatim>\<open>copy\<close> decides which object that is. For
  this handler the objects therefore live in a heap: a variable holds an address,
  \<^verbatim>\<open>library.copy()\<close> allocates a new object with the same elements, and the sort writes to
  the object at the address it is given. The result is the address that
  \<^verbatim>\<open>sorted_library\<close> holds, with the heap after the run.

  A sort that raises leaves its list in an order that depends on how far the algorithm
  got (the order it had, when it is a key that raises). This order is the argument
  \<open>interrupted\<close>, a function of what the handler sorts.
\<close>

record heap =
  cell :: "nat \<Rightarrow> pyval"
  next_free :: nat

definition alloc :: "pyval \<Rightarrow> heap \<Rightarrow> nat \<times> heap" where
  "alloc v h = (next_free h, h\<lparr>cell := (cell h)(next_free h := v), next_free := Suc (next_free h)\<rparr>)"

definition py_copy :: "nat \<Rightarrow> heap \<Rightarrow> (fault + nat) \<times> heap" where
  "py_copy a h =
     (case cell h a of
        PList xs \<Rightarrow> (let (c, h') = alloc (PList xs) h in (Inr c, h'))
      | PDict kvs \<Rightarrow> (let (c, h') = alloc (PDict kvs) h in (Inr c, h'))
      | _ \<Rightarrow> (Inl AttributeError, h))"

definition sort_in_place ::
  "(pystr \<Rightarrow> pystr) \<Rightarrow> (sort_by \<Rightarrow> bool \<Rightarrow> pyval list \<Rightarrow> pyval list) \<Rightarrow>
   sort_by \<Rightarrow> bool \<Rightarrow> nat \<Rightarrow> heap \<Rightarrow> (fault + unit) \<times> heap" where
  "sort_in_place lower interrupted sort_by reverse_sort a h =
     (case cell h a of
        PList xs \<Rightarrow>
          (case view_sort lower sort_by reverse_sort xs of
             Inl e \<Rightarrow> (Inl e, h\<lparr>cell := (cell h)(a := PList (interrupted sort_by reverse_sort xs))\<rparr>)
           | Inr r \<Rightarrow> (Inr (), h\<lparr>cell := (cell h)(a := PList r)\<rparr>))
      | _ \<Rightarrow> (Inl AttributeError, h))"

definition view_all_books ::
  "(pystr \<Rightarrow> pystr) \<Rightarrow> (sort_by \<Rightarrow> bool \<Rightarrow> pyval list \<Rightarrow> pyval list) \<Rightarrow>
   sort_by \<Rightarrow> bool \<Rightarrow> nat \<Rightarrow> heap \<Rightarrow> (fault + nat) \<times> heap" where
  "view_all_books lower interrupted sort_by reverse_sort library h =
     (case py_copy library h of
        (Inl e, h1) \<Rightarrow> (Inl e, h1)
      | (Inr sorted_library, h1) \<Rightarrow>
          (case sort_in_place lower interrupted sort_by reverse_sort sorted_library h1 of
             (Inl e, h2) \<Rightarrow> (Inl e, h2)
           | (Inr u, h2) \<Rightarrow> (Inr sorted_library, h2)))"

section \<open>Saving and loading\<close>

subsection \<open>\<^verbatim>\<open>json.dump\<close>\<close>

text \<open>
  The text that \<^verbatim>\<open>json.dump\<close> writes with its default settings: items are separated by a
  comma and a space, a key from its value by a colon and a space, and a string is written
  in ASCII. In a string, the quote, the backslash and five control characters have
  two-character escapes, the other characters from the space to the tilde stand for
  themselves, and every other code point is written as \<^verbatim>\<open>\uXXXX\<close> with four hexadecimal
  digits in lower case, a code point beyond the Basic Multilingual Plane as a
  surrogate pair.

  The text of a float would be its shortest representation that reads back as the same
  double, which is not modelled: a value that contains a float has no modelled text.

  The interpreter sets limits that depend on its version and its configuration: the
  number of digits of an integer that it converts to or from text
  (\<^verbatim>\<open>sys.get_int_max_str_digits()\<close>, where 0 stands for no limit), and how many containers
  inside one another the encoder and the decoder can follow before the recursion limit
  is reached. They are the argument \<open>lims\<close>. \<^verbatim>\<open>json.dump\<close> writes to the file piece by
  piece, so that a value beyond a limit leaves a part of its text in the file: such a run
  is outside the model as well.
\<close>

record limits =
  max_str_digits :: nat
  dump_depth :: nat
  load_depth :: nat

definition hex_digit :: "nat \<Rightarrow> nat" where
  "hex_digit d = (if d < 10 then 48 + d else 87 + d)"

definition hex4 :: "nat \<Rightarrow> pystr" where
  "hex4 n = [hex_digit (n div 4096 mod 16), hex_digit (n div 256 mod 16),
             hex_digit (n div 16 mod 16), hex_digit (n mod 16)]"

definition escape_cp :: "nat \<Rightarrow> pystr" where
  "escape_cp c =
     (if c = 34 then [92, 34]
      else if c = 92 then [92, 92]
      else if c = 10 then [92, 110]
      else if c = 13 then [92, 114]
      else if c = 9 then [92, 116]
      else if c = 8 then [92, 98]
      else if c = 12 then [92, 102]
      else if 32 \<le> c \<and> c \<le> 126 then [c]
      else if c < 65536 then 92 # 117 # hex4 c
      else 92 # 117 # hex4 (55296 + (c - 65536) div 1024 mod 1024)
         @ 92 # 117 # hex4 (56320 + (c - 65536) mod 1024))"

definition quote :: "pystr \<Rightarrow> pystr" where
  "quote s = 34 # concat (map escape_cp s) @ [34]"

fun digits :: "nat \<Rightarrow> pystr" where
  "digits n = (if n < 10 then [48 + n] else digits (n div 10) @ [48 + n mod 10])"

declare digits.simps [simp del]

definition int_repr :: "int \<Rightarrow> pystr" where
  "int_repr i = (if i < 0 then 45 # digits (nat (- i)) else digits (nat i))"

fun join :: "pystr list \<Rightarrow> pystr" where
  "join [] = []"
| "join [x] = x"
| "join (x # y # ys) = x @ [44, 32] @ join (y # ys)"

fun encode :: "pyval \<Rightarrow> pystr" where
  "encode PNone = str ''null''"
| "encode (PBool b) = (if b then str ''true'' else str ''false'')"
| "encode (PInt i) = int_repr i"
| "encode (PFloat lit) = lit"
| "encode (PStr s) = quote s"
| "encode (PList xs) = 91 # join (map encode xs) @ [93]"
| "encode (PDict kvs) = 123 # join (map (\<lambda>(k, v). quote k @ [58, 32] @ encode v) kvs) @ [125]"

text \<open>How many containers a value nests.\<close>

fun depth :: "pyval \<Rightarrow> nat" where
  "depth (PList xs) = Suc (foldr max (map depth xs) 0)"
| "depth (PDict kvs) = Suc (foldr max (map (\<lambda>kv. depth (snd kv)) kvs) 0)"
| "depth _ = 0"

definition int_within :: "limits \<Rightarrow> int \<Rightarrow> bool" where
  "int_within lims i =
     (max_str_digits lims = 0 \<or> length (digits (nat \<bar>i\<bar>)) \<le> max_str_digits lims)"

text \<open>The values whose text the encoder completes: no float, every integer within the limit.\<close>

fun printable :: "limits \<Rightarrow> pyval \<Rightarrow> bool" where
  "printable lims (PFloat lit) = False"
| "printable lims (PInt i) = int_within lims i"
| "printable lims (PList xs) = list_all (printable lims) xs"
| "printable lims (PDict kvs) = list_all (\<lambda>kv. printable lims (snd kv)) kvs"
| "printable lims _ = True"

definition json_dumps :: "limits \<Rightarrow> pyval \<Rightarrow> fault + pystr" where
  "json_dumps lims v =
     (if printable lims v \<and> depth v \<le> dump_depth lims then Inr (encode v)
      else Inl NotModelled)"

subsection \<open>\<^verbatim>\<open>json.load\<close>\<close>

text \<open>
  The decoder of Python's \<^verbatim>\<open>json\<close> module with its default settings, on the text of
  the file. White space is the space, the tab, the line feed and the carriage return. A
  string ends at the first unescaped quote; a control character inside it is an error; an
  escape \<^verbatim>\<open>\uXXXX\<close> of a high surrogate that is followed by the escape of a low surrogate
  is read with it as one code point. A number without fraction and exponent is an integer;
  any other number, and \<^verbatim>\<open>NaN\<close>, \<^verbatim>\<open>Infinity\<close> and \<^verbatim>\<open>-Infinity\<close>, is a float, kept as its
  text. In an object, a key that occurs again replaces the value and keeps the place of
  its first occurrence, as an assignment to a dictionary does.

  \<open>None\<close> stands for the exception that ends the decoding: the error of the decoder, the
  error of the conversion of an integer with more digits than the limit allows, or the
  recursion error when the text opens more containers inside one another than
  \<open>load_depth\<close>. The program treats the three alike.

  The recursion over the text is bounded by a counter that is one larger than the length
  of the text; every recursive call consumes a character, so the counter never runs out
  before the text does.
\<close>

definition is_ws :: "nat \<Rightarrow> bool" where
  "is_ws c = (c = 32 \<or> c = 9 \<or> c = 10 \<or> c = 13)"

definition skip_ws :: "pystr \<Rightarrow> pystr" where
  "skip_ws = dropWhile is_ws"

definition is_digit :: "nat \<Rightarrow> bool" where
  "is_digit c = (48 \<le> c \<and> c \<le> 57)"

definition hex_value :: "nat \<Rightarrow> nat option" where
  "hex_value c =
     (if 48 \<le> c \<and> c \<le> 57 then Some (c - 48)
      else if 97 \<le> c \<and> c \<le> 102 then Some (c - 87)
      else if 65 \<le> c \<and> c \<le> 70 then Some (c - 55)
      else None)"

fun parse_hex4 :: "pystr \<Rightarrow> nat option" where
  "parse_hex4 [a, b, c, d] =
     (case (hex_value a, hex_value b, hex_value c, hex_value d) of
        (Some w, Some x, Some y, Some z) \<Rightarrow> Some (((w * 16 + x) * 16 + y) * 16 + z)
      | _ \<Rightarrow> None)"
| "parse_hex4 _ = None"

definition unescape :: "nat \<Rightarrow> nat option" where
  "unescape e =
     (if e = 34 then Some 34
      else if e = 92 then Some 92
      else if e = 47 then Some 47
      else if e = 98 then Some 8
      else if e = 102 then Some 12
      else if e = 110 then Some 10
      else if e = 114 then Some 13
      else if e = 116 then Some 9
      else None)"

definition is_high_surrogate :: "nat \<Rightarrow> bool" where
  "is_high_surrogate u = (55296 \<le> u \<and> u \<le> 56319)"

definition is_low_surrogate :: "nat \<Rightarrow> bool" where
  "is_low_surrogate u = (56320 \<le> u \<and> u \<le> 57343)"

text \<open>
  The text after the opening quote of a string: the decoded string and the text after
  the closing quote.
\<close>

fun scan_string :: "pystr \<Rightarrow> (pystr \<times> pystr) option" where
  "scan_string [] = None"
| "scan_string (c # cs) =
     (if c = 34 then Some ([], cs)
      else if c = 92 then
        (case cs of
           [] \<Rightarrow> None
         | e # es \<Rightarrow>
             if e = 117 then
               (case es of
                  a # b # c # d # rest \<Rightarrow>
                    (case parse_hex4 [a, b, c, d] of
                       None \<Rightarrow> None
                     | Some u \<Rightarrow>
                         (case rest of
                            b1 # b2 # a' # b' # c' # d' # rest' \<Rightarrow>
                              if is_high_surrogate u \<and> b1 = 92 \<and> b2 = 117 then
                                (case parse_hex4 [a', b', c', d'] of
                                   None \<Rightarrow> None
                                 | Some u' \<Rightarrow>
                                     if is_low_surrogate u' then
                                       map_option (\<lambda>(t, r). ((65536 + (u - 55296) * 1024 + (u' - 56320)) # t, r))
                                         (scan_string rest')
                                     else map_option (\<lambda>(t, r). (u # t, r)) (scan_string rest))
                              else map_option (\<lambda>(t, r). (u # t, r)) (scan_string rest)
                          | _ \<Rightarrow> map_option (\<lambda>(t, r). (u # t, r)) (scan_string rest)))
                | _ \<Rightarrow> None)
             else
               (case unescape e of
                  None \<Rightarrow> None
                | Some x \<Rightarrow> map_option (\<lambda>(t, r). (x # t, r)) (scan_string es)))
      else if c < 32 then None
      else map_option (\<lambda>(t, r). (c # t, r)) (scan_string cs))"

declare scan_string.simps [simp del]

definition nat_of_digits :: "pystr \<Rightarrow> nat" where
  "nat_of_digits ds = foldl (\<lambda>a d. 10 * a + (d - 48)) 0 ds"

text \<open>
  A number at the start of the text: the sign, the integer part (a single 0, or digits
  that start with 1 to 9), a fraction if a point and a digit follow, an exponent if
  \<^verbatim>\<open>e\<close> or \<^verbatim>\<open>E\<close>, an optional sign and a digit follow.
\<close>

definition scan_sign :: "pystr \<Rightarrow> pystr \<times> pystr" where
  "scan_sign s = (case s of c # r \<Rightarrow> if c = 45 then ([45], r) else ([], s) | [] \<Rightarrow> ([], s))"

definition scan_int_part :: "pystr \<Rightarrow> (pystr \<times> pystr) option" where
  "scan_int_part s =
     (case s of
        [] \<Rightarrow> None
      | d # r \<Rightarrow>
          if d = 48 then Some ([48], r)
          else if is_digit d then Some (d # takeWhile is_digit r, dropWhile is_digit r)
          else None)"

definition scan_frac :: "pystr \<Rightarrow> pystr \<times> pystr" where
  "scan_frac s =
     (case s of
        p # f # r \<Rightarrow>
          if p = 46 \<and> is_digit f
          then (46 # takeWhile is_digit (f # r), dropWhile is_digit (f # r))
          else ([], s)
      | _ \<Rightarrow> ([], s))"

definition scan_exp :: "pystr \<Rightarrow> pystr \<times> pystr" where
  "scan_exp s =
     (case s of
        e # r \<Rightarrow>
          if e = 101 \<or> e = 69 then
            (let (sg, r1) = (case r of
                               c # r' \<Rightarrow> if c = 43 \<or> c = 45 then ([c], r') else ([], r)
                             | [] \<Rightarrow> ([], r))
             in case r1 of
                  d # r2 \<Rightarrow>
                    if is_digit d
                    then (e # sg @ takeWhile is_digit r1, dropWhile is_digit r1)
                    else ([], s)
                | [] \<Rightarrow> ([], s))
          else ([], s)
      | [] \<Rightarrow> ([], s))"

definition scan_number :: "nat \<Rightarrow> pystr \<Rightarrow> (pyval \<times> pystr) option" where
  "scan_number max_digits s =
     (let (sign, s1) = scan_sign s in
      case scan_int_part s1 of
        None \<Rightarrow> None
      | Some (ip, s2) \<Rightarrow>
          (let (frac, s3) = scan_frac s2;
               (ex, s4) = scan_exp s3
           in if frac = [] \<and> ex = []
              then (if max_digits \<noteq> 0 \<and> max_digits < length ip then None
                    else Some (PInt (if sign = [] then int (nat_of_digits ip)
                                     else - int (nat_of_digits ip)), s4))
              else Some (PFloat (sign @ ip @ frac @ ex), s4)))"

text \<open>The words of JSON, and the three that Python adds.\<close>

definition scan_word :: "pystr \<Rightarrow> (pyval \<times> pystr) option" where
  "scan_word s =
     (if take 4 s = str ''null'' then Some (PNone, drop 4 s)
      else if take 4 s = str ''true'' then Some (PBool True, drop 4 s)
      else if take 5 s = str ''false'' then Some (PBool False, drop 5 s)
      else if take 3 s = str ''NaN'' then Some (PFloat (str ''NaN''), drop 3 s)
      else if take 8 s = str ''Infinity'' then Some (PFloat (str ''Infinity''), drop 8 s)
      else if take 9 s = str ''-Infinity'' then Some (PFloat (str ''-Infinity''), drop 9 s)
      else None)"

text \<open>\<^verbatim>\<open>d[k] = v\<close> on a dictionary.\<close>

fun dict_set :: "pystr \<Rightarrow> pyval \<Rightarrow> (pystr \<times> pyval) list \<Rightarrow> (pystr \<times> pyval) list" where
  "dict_set k v [] = [(k, v)]"
| "dict_set k v (p # ps) = (if fst p = k then (k, v) # ps else p # dict_set k v ps)"

text \<open>
  \<open>parse_value md n d s\<close> reads a value at the start of \<open>s\<close>: \<open>md\<close> is the limit on the
  digits of an integer, \<open>d\<close> the number of containers that may still be opened, and \<open>n\<close>
  the counter that bounds the recursion.
\<close>

fun parse_value :: "nat \<Rightarrow> nat \<Rightarrow> nat \<Rightarrow> pystr \<Rightarrow> (pyval \<times> pystr) option"
  and parse_items :: "nat \<Rightarrow> nat \<Rightarrow> nat \<Rightarrow> pyval list \<Rightarrow> pystr \<Rightarrow> (pyval \<times> pystr) option"
  and parse_members ::
    "nat \<Rightarrow> nat \<Rightarrow> nat \<Rightarrow> (pystr \<times> pyval) list \<Rightarrow> pystr \<Rightarrow> (pyval \<times> pystr) option"
where
  "parse_value md 0 d s = None"
| "parse_value md (Suc n) d s =
     (case s of
        [] \<Rightarrow> None
      | c # cs \<Rightarrow>
          if c = 34 then map_option (\<lambda>(t, r). (PStr t, r)) (scan_string cs)
          else if c = 123 then
            (case d of
               0 \<Rightarrow> None
             | Suc d' \<Rightarrow>
                 (case skip_ws cs of
                    [] \<Rightarrow> None
                  | x # xs \<Rightarrow>
                      if x = 125 then Some (PDict [], xs)
                      else parse_members md n d' [] (x # xs)))
          else if c = 91 then
            (case d of
               0 \<Rightarrow> None
             | Suc d' \<Rightarrow>
                 (case skip_ws cs of
                    [] \<Rightarrow> None
                  | x # xs \<Rightarrow>
                      if x = 93 then Some (PList [], xs)
                      else parse_items md n d' [] (x # xs)))
          else
            (case scan_word s of
               Some r \<Rightarrow> Some r
             | None \<Rightarrow> scan_number md s))"
| "parse_items md 0 d acc s = None"
| "parse_items md (Suc n) d acc s =
     (case parse_value md n d s of
        None \<Rightarrow> None
      | Some (v, r) \<Rightarrow>
          (case skip_ws r of
             [] \<Rightarrow> None
           | x # xs \<Rightarrow>
               if x = 93 then Some (PList (acc @ [v]), xs)
               else if x = 44 then parse_items md n d (acc @ [v]) (skip_ws xs)
               else None))"
| "parse_members md 0 d acc s = None"
| "parse_members md (Suc n) d acc s =
     (case s of
        [] \<Rightarrow> None
      | q # qs \<Rightarrow>
          if q \<noteq> 34 then None
          else
            (case scan_string qs of
               None \<Rightarrow> None
             | Some (k, r) \<Rightarrow>
                 (case skip_ws r of
                    [] \<Rightarrow> None
                  | c # cs \<Rightarrow>
                      if c \<noteq> 58 then None
                      else
                        (case parse_value md n d (skip_ws cs) of
                           None \<Rightarrow> None
                         | Some (v, r2) \<Rightarrow>
                             (case skip_ws r2 of
                                [] \<Rightarrow> None
                              | x # xs \<Rightarrow>
                                  if x = 125 then Some (PDict (dict_set k v acc), xs)
                                  else if x = 44
                                  then parse_members md n d (dict_set k v acc) (skip_ws xs)
                                  else None)))))"

text \<open>
  \<^verbatim>\<open>json.loads\<close>: a text that starts with a byte order mark is refused; white space may
  surround the value; nothing else may follow it.
\<close>

definition json_loads :: "limits \<Rightarrow> pystr \<Rightarrow> pyval option" where
  "json_loads lims s =
     (case s of
        [] \<Rightarrow> None
      | c # cs \<Rightarrow>
          if c = 65279 then None
          else
            (case parse_value (max_str_digits lims) (Suc (length s)) (load_depth lims) (skip_ws s) of
               None \<Rightarrow> None
             | Some (v, r) \<Rightarrow> if skip_ws r = [] then Some v else None))"

subsection \<open>The two functions of the program\<close>

text \<open>
  The files: a path is missing, or it names a text file with its content, or it names
  something that exists and cannot be read as text (a directory, a file without read
  permission, bytes that are no text). \<open>writable\<close> tells whether \<^verbatim>\<open>open(filename, 'w')\<close>
  succeeds; a file that the program has written is a text file with the written content.
\<close>

datatype entry = Missing | Text pystr | Unreadable

record world =
  session_library :: pyval
  files :: "pystr \<Rightarrow> entry"
  writable :: "pystr \<Rightarrow> bool"

text \<open>
  \<^verbatim>\<open>save_library_to_file\<close>: every exception is caught and shown as an error. The only
  outcome that is not a message is that of a store whose text is not modelled.
\<close>

definition save_library_to_file :: "limits \<Rightarrow> pystr \<Rightarrow> world \<Rightarrow> fault + notice \<times> world" where
  "save_library_to_file lims filename w =
     (if \<not> writable w filename then Inr (Error, w)
      else andthen (json_dumps lims (session_library w)) (\<lambda>text.
             Inr (Success, w\<lparr>files := (files w)(filename := Text text)\<rparr>)))"

text \<open>
  \<^verbatim>\<open>load_library_from_file\<close>: the store is assigned after \<^verbatim>\<open>json.load\<close> has returned, with
  whatever value the text denotes.
\<close>

definition load_library_from_file :: "limits \<Rightarrow> pystr \<Rightarrow> world \<Rightarrow> notice \<times> world" where
  "load_library_from_file lims filename w =
     (case files w filename of
        Missing \<Rightarrow> (Warning, w)
      | Unreadable \<Rightarrow> (Error, w)
      | Text text \<Rightarrow>
          (case json_loads lims text of
             None \<Rightarrow> (Error, w)
           | Some v \<Rightarrow> (Success, w\<lparr>session_library := v\<rparr>)))"

section \<open>Vocabulary of the specification\<close>

text \<open>
  The specification speaks of book records with typed fields. The following functions read
  a field of a record when the record is a dictionary that binds the key to a value of
  the expected type.
\<close>

definition str_field :: "pyval \<Rightarrow> pystr \<Rightarrow> pystr option" where
  "str_field b k =
     (case b of
        PDict kvs \<Rightarrow> (case map_of kvs k of Some (PStr s) \<Rightarrow> Some s | _ \<Rightarrow> None)
      | _ \<Rightarrow> None)"

definition int_field :: "pyval \<Rightarrow> pystr \<Rightarrow> int option" where
  "int_field b k =
     (case b of
        PDict kvs \<Rightarrow> (case map_of kvs k of Some (PInt i) \<Rightarrow> Some i | _ \<Rightarrow> None)
      | _ \<Rightarrow> None)"

definition read_flag :: "pyval \<Rightarrow> bool option" where
  "read_flag b =
     (case b of
        PDict kvs \<Rightarrow> (case map_of kvs (str ''read_status'') of Some (PBool r) \<Rightarrow> Some r | _ \<Rightarrow> None)
      | _ \<Rightarrow> None)"

text \<open>A record whose title equals the given one when case is ignored.\<close>

definition title_matches :: "(pystr \<Rightarrow> pystr) \<Rightarrow> pystr \<Rightarrow> pyval \<Rightarrow> bool" where
  "title_matches lower title b =
     (case str_field b (str ''title'') of Some s \<Rightarrow> lower s = lower title | None \<Rightarrow> False)"

text \<open>\<open>term\<close> is a substring of \<open>s\<close> when case is ignored.\<close>

definition ci_substring :: "(pystr \<Rightarrow> pystr) \<Rightarrow> pystr \<Rightarrow> pystr \<Rightarrow> bool" where
  "ci_substring lower term s = (\<exists>ps ss. lower s = ps @ lower term @ ss)"

text \<open>
  The sort keys of the specification: the title and the author without case, the date of
  addition as it is, and the year.
\<close>

fun text_key :: "(pystr \<Rightarrow> pystr) \<Rightarrow> sort_by \<Rightarrow> pyval \<Rightarrow> pystr option" where
  "text_key lower RecentlyAdded b = str_field b (str ''added_date'')"
| "text_key lower Title b = map_option lower (str_field b (str ''title''))"
| "text_key lower Author b = map_option lower (str_field b (str ''author''))"
| "text_key lower Year b = None"

definition year_key :: "pyval \<Rightarrow> int option" where
  "year_key b = int_field b (str ''year'')"

text \<open>The direction in which the handler sorts for a setting of the check box.\<close>

definition descending :: "sort_by \<Rightarrow> bool \<Rightarrow> bool" where
  "descending sort_by reverse_sort =
     (if sort_by = RecentlyAdded then \<not> reverse_sort else reverse_sort)"

text \<open>
  \<open>ordered_by key desc r\<close>: the keys along \<open>r\<close> never decrease (never increase when \<open>desc\<close>).
  \<open>stable_wrt key xs r\<close>: the records of each key are in \<open>r\<close> in the order they have in \<open>xs\<close>.
\<close>

definition ordered_by :: "(pyval \<Rightarrow> ('k::linorder) option) \<Rightarrow> bool \<Rightarrow> pyval list \<Rightarrow> bool" where
  "ordered_by key desc r =
     sorted_wrt (\<lambda>a b. \<exists>ka kb. key a = Some ka \<and> key b = Some kb
                         \<and> (if desc then kb \<le> ka else ka \<le> kb)) r"

definition stable_wrt :: "(pyval \<Rightarrow> ('k::linorder) option) \<Rightarrow> pyval list \<Rightarrow> pyval list \<Rightarrow> bool" where
  "stable_wrt key xs r =
     (\<forall>k. filter (\<lambda>b. key b = Some k) r = filter (\<lambda>b. key b = Some k) xs)"

text \<open>A stable sort in either direction, as \<^verbatim>\<open>list.sort\<close> performs it on well-typed keys.\<close>

definition psort :: "('a \<Rightarrow> 'k::linorder) \<Rightarrow> bool \<Rightarrow> 'a list \<Rightarrow> 'a list" where
  "psort k d xs = (if d then rev (sort_key k (rev xs)) else sort_key k xs)"

text \<open>
  For the examples: the lowering of the letters A to Z, which is what \<^verbatim>\<open>str.lower()\<close> does
  on ASCII text, the two float operations on ratios that doubles represent exactly,
  an order for an interrupted sort, the limits of a current interpreter, and the two
  books of the scenario of the specification.
\<close>

definition ascii_lower :: "pystr \<Rightarrow> pystr" where
  "ascii_lower = map (\<lambda>c. if 65 \<le> c \<and> c \<le> 90 then c + 32 else c)"

definition exact_div :: "int \<Rightarrow> int \<Rightarrow> rat" where
  "exact_div a b = of_int a / of_int b"

definition exact_mul :: "rat \<Rightarrow> int \<Rightarrow> rat" where
  "exact_mul x k = x * of_int k"

definition keep_order :: "sort_by \<Rightarrow> bool \<Rightarrow> pyval list \<Rightarrow> pyval list" where
  "keep_order sort_by reverse_sort xs = xs"

definition usual_limits :: limits where
  "usual_limits = \<lparr> max_str_digits = 4300, dump_depth = 900, load_depth = 900 \<rparr>"


definition dune :: pyval where
  "dune = new_book (str ''Dune'') (str ''Frank Herbert'') 1965 (str ''Science Fiction'') False
            (str ''2024-05-01 10:00:00'')"

definition emma :: pyval where
  "emma = new_book (str ''Emma'') (str ''Jane Austen'') 1815 (str ''Romance'') True
            (str ''2024-05-01 10:00:07'')"

text \<open>
  The values that JSON represents without loss and whose text \<^verbatim>\<open>json.dump\<close> completes:
  no float, every integer within the limit on digits, every string a sequence of Unicode
  scalar values (a code point below \<^verbatim>\<open>0x110000\<close> that is no surrogate), the keys of every
  dictionary pairwise distinct. The stores that the program builds, lists of records
  with text, integer and Boolean fields, are such values.
\<close>

definition valid_cp :: "nat \<Rightarrow> bool" where
  "valid_cp c = (c < 55296 \<or> (57344 \<le> c \<and> c < 1114112))"

definition valid_str :: "pystr \<Rightarrow> bool" where
  "valid_str s = list_all valid_cp s"

fun json_ok :: "limits \<Rightarrow> pyval \<Rightarrow> bool" where
  "json_ok lims PNone = True"
| "json_ok lims (PBool b) = True"
| "json_ok lims (PInt i) = int_within lims i"
| "json_ok lims (PFloat lit) = False"
| "json_ok lims (PStr s) = valid_str s"
| "json_ok lims (PList xs) = list_all (json_ok lims) xs"
| "json_ok lims (PDict kvs) =
     (distinct (map fst kvs) \<and> list_all (\<lambda>kv. valid_str (fst kv) \<and> json_ok lims (snd kv)) kvs)"

text \<open>A bound on the recursion that reading the text of a value needs.\<close>

fun weight :: "pyval \<Rightarrow> nat" where
  "weight (PList xs) = Suc (length xs + sum_list (map weight xs))"
| "weight (PDict kvs) = Suc (length kvs + sum_list (map (\<lambda>kv. weight (snd kv)) kvs))"
| "weight _ = 1"

text \<open>The text after a value inside an array or an object, or after the whole value.\<close>

definition delim :: "pystr \<Rightarrow> bool" where
  "delim rest = (case rest of [] \<Rightarrow> True | c # cs \<Rightarrow> c = 44 \<or> c = 93 \<or> c = 125)"

text \<open>The characters with which the text of a value can start.\<close>

definition starter :: "nat \<Rightarrow> bool" where
  "starter c = (c = 34 \<or> c = 123 \<or> c = 91 \<or> c = 110 \<or> c = 116 \<or> c = 102 \<or> c = 45
                 \<or> (48 \<le> c \<and> c \<le> 57))"

text \<open>The text of a member of an object, as \<open>encode\<close> writes it.\<close>

definition member :: "pystr \<times> pyval \<Rightarrow> pystr" where
  "member = (\<lambda>(k, v). quote k @ [58, 32] @ encode v)"

text \<open>
  For the examples: a session with the given store, in which every path names a text
  file with the given content and can be written.
\<close>

definition world_with :: "pyval \<Rightarrow> pystr \<Rightarrow> world" where
  "world_with store content =
     \<lparr> session_library = store, files = (\<lambda>f. Text content), writable = (\<lambda>f. True) \<rparr>"

section \<open>Basic facts\<close>

lemma andthen_simps [simp]: "andthen (Inl e) f = Inl e" "andthen (Inr x) f = f x"
  by (simp_all add: andthen_def)

lemma str_field_getitem: "str_field b k = Some s \<Longrightarrow> py_getitem b k = Inr (PStr s)"
  by (auto simp: str_field_def split: pyval.splits option.splits)

lemma int_field_getitem: "int_field b k = Some i \<Longrightarrow> py_getitem b k = Inr (PInt i)"
  by (auto simp: int_field_def split: pyval.splits option.splits)

lemma read_flag_getitem: "read_flag b = Some r \<Longrightarrow> py_getitem b (str ''read_status'') = Inr (PBool r)"
  by (auto simp: read_flag_def split: pyval.splits option.splits)

lemma contains_iff: "contains n h \<longleftrightarrow> (\<exists>ps ss. h = ps @ n @ ss)"
proof (induction h)
  case Nil
  then show ?case by auto
next
  case (Cons a h)
  have "take (length n) (a # h) = n \<longleftrightarrow> (\<exists>ss. a # h = n @ ss)"
    by (metis append_eq_conv_conj append_take_drop_id)
  moreover have "(\<exists>ps ss. a # h = ps @ n @ ss)
      \<longleftrightarrow> (\<exists>ss. a # h = n @ ss) \<or> (\<exists>ps ss. h = ps @ n @ ss)"
    apply (rule iffI)
     apply (metis append_Nil list.sel(3) tl_append2)
    apply (metis append_Cons append_Nil)
    done
  ultimately show ?case using Cons.IH by simp
qed

lemma title_dune: "str_field dune (str ''title'') = Some (str ''Dune'')"
  by (simp add: dune_def new_book_def str_field_def)

lemma title_emma: "str_field emma (str ''title'') = Some (str ''Emma'')"
  by (simp add: emma_def new_book_def str_field_def)

lemma added_dune: "str_field dune (str ''added_date'') = Some (str ''2024-05-01 10:00:00'')"
  by (simp add: dune_def new_book_def str_field_def str_def)

lemma added_emma: "str_field emma (str ''added_date'') = Some (str ''2024-05-01 10:00:07'')"
  by (simp add: emma_def new_book_def str_field_def str_def)

lemma year_dune: "year_key dune = Some 1965"
  by (simp add: dune_def new_book_def year_key_def int_field_def str_def)

lemma year_emma: "year_key emma = Some 1815"
  by (simp add: emma_def new_book_def year_key_def int_field_def str_def)

lemma read_dune: "read_flag dune = Some False"
  by (simp add: dune_def new_book_def read_flag_def str_def)

lemma read_emma: "read_flag emma = Some True"
  by (simp add: emma_def new_book_def read_flag_def str_def)

lemma dune_neq_emma: "dune \<noteq> emma"
  by (simp add: dune_def emma_def new_book_def str_def)

section \<open>Adding a book\<close>

text \<open>
  C4 (as stated, refuted). The claim says that a submission with a non-empty title and
  author and the year 0 is added. The handler tests the truth value of the year, and 0
  is false: the submission is answered with the warning and the store stays as it was.
\<close>

theorem add_book_form_year_zero_rejected:
  "add_book_form (str ''Dune'') (str ''Frank Herbert'') 0 (str ''Science Fiction'') False
     (str ''2024-05-01 10:00:00'') (PList []) = Inr (Warning, PList [])"
  by (simp add: add_book_form_def truthy_int_def)

text \<open>
  C4 (amended). On a store that is a list, a submission is rejected, with the warning and
  no change of the store, exactly when the title is empty, the author is empty or the
  year is 0; every other submission appends the new record to the store.
\<close>

theorem add_book_form_accepts_iff:
  "add_book_form title author year genre read_status now (PList bs) =
     (if title \<noteq> [] \<and> author \<noteq> [] \<and> year \<noteq> 0
      then Inr (Success, PList (bs @ [new_book title author year genre read_status now]))
      else Inr (Warning, PList bs))"
  by (simp add: add_book_form_def add_book_def truthy_str_def truthy_int_def)

theorem add_book_form_accepts_iff_witness:
  "add_book_form (str ''Dune'') (str ''Frank Herbert'') 1965 (str ''Science Fiction'') False
     (str ''2024-05-01 10:00:00'') (PList []) = Inr (Success, PList [dune])
   \<and> add_book_form [] (str ''Frank Herbert'') 1965 (str ''Science Fiction'') False
     (str ''2024-05-01 10:00:00'') (PList [emma]) = Inr (Warning, PList [emma])"
  using add_book_form_accepts_iff [of "str ''Dune''" "str ''Frank Herbert''" 1965
      "str ''Science Fiction''" False "str ''2024-05-01 10:00:00''" "[]"]
    add_book_form_accepts_iff [of "[]" "str ''Frank Herbert''" 1965
      "str ''Science Fiction''" False "str ''2024-05-01 10:00:00''" "[emma]"]
  by (simp add: str_def dune_def)

section \<open>Removing a book\<close>

lemma remove_loop_none:
  "\<forall>b\<in>set bs. str_field b (str ''title'') \<noteq> None \<Longrightarrow> \<forall>b\<in>set bs. \<not> title_matches lower title b
   \<Longrightarrow> remove_loop lower title i bs = Inr None"
proof (induction bs arbitrary: i)
  case Nil
  then show ?case by simp
next
  case (Cons a bs)
  then obtain s where s: "str_field a (str ''title'') = Some s" by auto
  with Cons.prems have "lower s \<noteq> lower title" by (simp add: title_matches_def)
  with Cons s show ?case by (simp add: str_field_getitem)
qed

lemma remove_loop_first:
  "\<forall>b\<in>set pre. str_field b (str ''title'') \<noteq> None \<Longrightarrow> \<forall>b\<in>set pre. \<not> title_matches lower title b
   \<Longrightarrow> title_matches lower title b
   \<Longrightarrow> remove_loop lower title i (pre @ b # post) = Inr (Some (i + length pre))"
proof (induction pre arbitrary: i)
  case Nil
  then obtain s where "str_field b (str ''title'') = Some s" "lower s = lower title"
    by (auto simp: title_matches_def split: option.splits)
  then show ?case by (simp add: str_field_getitem)
next
  case (Cons a pre)
  then obtain s where s: "str_field a (str ''title'') = Some s" by auto
  with Cons.prems have "lower s \<noteq> lower title" by (simp add: title_matches_def)
  with Cons s show ?case by (simp add: str_field_getitem)
qed

text \<open>
  C5. On a store whose records all have a string title, and whatever function
  \<^verbatim>\<open>str.lower()\<close> is: when a record matches the title without regard to case (its
  lowered title equals the lowered argument), \<open>remove_book\<close> removes the first such
  record, keeps all others in their order and reports success; when none matches, the
  store is unchanged and the outcome is the warning, not an exception.
\<close>

theorem remove_book_first_match:
  assumes "\<forall>b\<in>set bs. str_field b (str ''title'') \<noteq> None"
  shows "(\<forall>pre b post. bs = pre @ b # post \<and> (\<forall>p\<in>set pre. \<not> title_matches lower title p)
              \<and> title_matches lower title b
            \<longrightarrow> remove_book lower title (PList bs) = Inr (Success, PList (pre @ post)))
       \<and> ((\<forall>b\<in>set bs. \<not> title_matches lower title b)
            \<longrightarrow> remove_book lower title (PList bs) = Inr (Warning, PList bs))"
proof (intro conjI allI impI)
  fix pre b post
  assume h: "bs = pre @ b # post \<and> (\<forall>p\<in>set pre. \<not> title_matches lower title p) \<and> title_matches lower title b"
  with assms have "remove_loop lower title 0 bs = Inr (Some (length pre))"
    using remove_loop_first [of pre lower title b 0 post] by simp
  with h show "remove_book lower title (PList bs) = Inr (Success, PList (pre @ post))"
    by (simp add: remove_book_def)
next
  assume "\<forall>b\<in>set bs. \<not> title_matches lower title b"
  with assms have "remove_loop lower title 0 bs = Inr None" by (rule remove_loop_none)
  then show "remove_book lower title (PList bs) = Inr (Warning, PList bs)"
    by (simp add: remove_book_def)
qed

theorem remove_book_first_match_witness:
  "str_field dune (str ''title'') \<noteq> None \<and> str_field emma (str ''title'') \<noteq> None
   \<and> remove_book ascii_lower (str ''dune'') (PList [dune, emma]) = Inr (Success, PList [emma])
   \<and> remove_book ascii_lower (str ''Ulysses'') (PList [dune, emma]) = Inr (Warning, PList [dune, emma])"
proof -
  have h: "\<forall>b\<in>set [dune, emma]. str_field b (str ''title'') \<noteq> None"
    by (simp add: title_dune title_emma)
  have m: "title_matches ascii_lower (str ''dune'') dune"
    by (simp add: title_matches_def title_dune) (simp add: str_def ascii_lower_def)
  have n: "\<forall>b\<in>set [dune, emma]. \<not> title_matches ascii_lower (str ''Ulysses'') b"
    by (simp add: title_matches_def title_dune title_emma) (simp add: str_def ascii_lower_def)
  from remove_book_first_match [where lower = ascii_lower and title = "str ''dune''", OF h] m
  have "remove_book ascii_lower (str ''dune'') (PList [dune, emma]) = Inr (Success, PList ([] @ [emma]))"
    by (metis append_Nil empty_iff list.set(1))
  moreover from remove_book_first_match [where lower = ascii_lower and title = "str ''Ulysses''", OF h] n
  have "remove_book ascii_lower (str ''Ulysses'') (PList [dune, emma]) = Inr (Warning, PList [dune, emma])"
    by blast
  ultimately show ?thesis using h by simp
qed

section \<open>Searching\<close>

lemma search_loop_filter:
  "\<forall>b\<in>set bs. str_field b k \<noteq> None \<Longrightarrow>
   search_loop lower t k bs =
     Inr (filter (\<lambda>b. case str_field b k of Some s \<Rightarrow> ci_substring lower t s | None \<Rightarrow> False) bs)"
proof (induction bs)
  case Nil
  then show ?case by simp
next
  case (Cons a bs)
  then obtain s where s: "str_field a k = Some s" by auto
  with Cons show ?case by (simp add: str_field_getitem ci_substring_def contains_iff)
qed

lemma search_loop_total_iff:
  "(\<exists>r. search_loop lower t k bs = Inr r) \<longleftrightarrow> (\<forall>b\<in>set bs. str_field b k \<noteq> None)"
proof (induction bs)
  case Nil
  then show ?case by simp
next
  case (Cons a bs)
  show ?case
  proof (cases "str_field a k")
    case None
    then have "(\<exists>e. py_getitem a k = Inl e)
        \<or> (\<exists>v. py_getitem a k = Inr v \<and> py_lower lower v = Inl AttributeError)"
      by (cases a; cases "py_getitem a k")
         (auto simp: str_field_def split: option.splits pyval.splits)
    with None show ?thesis by auto
  next
    case (Some s)
    with Cons show ?thesis by (cases "search_loop lower t k bs") (auto simp: str_field_getitem)
  qed
qed

text \<open>
  C6. On a store whose records all have the searched field as a string, and whatever
  function \<^verbatim>\<open>str.lower()\<close> is, \<open>search_books\<close> returns, in the order of the store, exactly
  the records whose lowered field contains the lowered term as a substring; with the empty
  term, which \<^verbatim>\<open>str.lower()\<close> leaves empty, it returns every record.
\<close>

theorem search_books_filter:
  assumes "\<forall>b\<in>set bs. str_field b search_by \<noteq> None"
  shows "search_books lower search_term search_by (PList bs) =
           Inr (filter (\<lambda>b. case str_field b search_by of
                               Some s \<Rightarrow> ci_substring lower search_term s | None \<Rightarrow> False) bs)
       \<and> (lower [] = [] \<longrightarrow> search_books lower [] search_by (PList bs) = Inr bs)"
proof (intro conjI impI)
  show "search_books lower search_term search_by (PList bs) =
           Inr (filter (\<lambda>b. case str_field b search_by of
                               Some s \<Rightarrow> ci_substring lower search_term s | None \<Rightarrow> False) bs)"
    using assms by (simp add: search_books_def search_loop_filter)
next
  assume l: "lower [] = []"
  have e: "ci_substring lower [] s" for s
    unfolding ci_substring_def l by (rule exI [of _ "[]"]) simp
  have "filter (\<lambda>b. case str_field b search_by of
                       Some s \<Rightarrow> ci_substring lower [] s | None \<Rightarrow> False) bs = bs"
    using assms by (induction bs) (auto simp: e split: option.splits)
  then show "search_books lower [] search_by (PList bs) = Inr bs"
    using assms by (simp add: search_books_def search_loop_filter)
qed

theorem search_books_filter_witness:
  "str_field dune (str ''title'') \<noteq> None \<and> str_field emma (str ''title'') \<noteq> None
   \<and> ascii_lower [] = []
   \<and> search_books ascii_lower (str ''dUNe'') (str ''title'') (PList [dune, emma]) = Inr [dune]
   \<and> search_books ascii_lower [] (str ''title'') (PList [dune, emma]) = Inr [dune, emma]"
proof -
  have h: "\<forall>b\<in>set [dune, emma]. str_field b (str ''title'') \<noteq> None"
    by (simp add: title_dune title_emma)
  have l: "ascii_lower [] = []"
    by (simp add: ascii_lower_def)
  have d: "ci_substring ascii_lower (str ''dUNe'') (str ''Dune'')"
    unfolding ci_substring_def contains_iff [symmetric]
    by (simp add: str_def ascii_lower_def)
  have e: "\<not> ci_substring ascii_lower (str ''dUNe'') (str ''Emma'')"
    unfolding ci_substring_def contains_iff [symmetric]
    by (simp add: str_def ascii_lower_def)
  from search_books_filter [where lower = ascii_lower and search_term = "str ''dUNe''", OF h]
    d e h l
  show ?thesis
    by (simp add: title_dune title_emma)
qed

section \<open>Statistics\<close>

lemma count_read_filter:
  "\<forall>b\<in>set bs. read_flag b \<noteq> None \<Longrightarrow>
   count_read bs = Inr (length (filter (\<lambda>b. read_flag b = Some True) bs))"
proof (induction bs)
  case Nil
  then show ?case by simp
next
  case (Cons a bs)
  then obtain r where r: "read_flag a = Some r" by auto
  with Cons show ?case by (simp add: read_flag_getitem)
qed

text \<open>
  C7. On a store whose records all have a Boolean \<open>read_status\<close>, the statistics are: the
  number of records, the number of records that are read, their difference, and, when
  there is a record, the float that the float division of the number read by the number
  of records and then the float multiplication by 100 give, whatever the two float
  operations are; when there is no record the percentage is the integer 0. On the empty
  store all four are 0 and nothing is divided.
\<close>

theorem calculate_statistics_counts:
  assumes "\<forall>b\<in>set bs. read_flag b \<noteq> None"
  shows "calculate_statistics fdiv fmul (PList bs) =
           Inr \<lparr> total_books = length bs,
                 read_books = length (filter (\<lambda>b. read_flag b = Some True) bs),
                 unread_books =
                   int (length bs) - int (length (filter (\<lambda>b. read_flag b = Some True) bs)),
                 read_percentage =
                   (if length bs > 0
                    then FloatVal
                           (fmul (fdiv (int (length (filter (\<lambda>b. read_flag b = Some True) bs)))
                                       (int (length bs))) 100)
                    else IntVal 0) \<rparr>
       \<and> calculate_statistics fdiv fmul (PList []) =
           Inr \<lparr> total_books = 0, read_books = 0, unread_books = 0,
                 read_percentage = IntVal 0 \<rparr>"
  using assms by (simp add: calculate_statistics_def count_read_filter)

theorem calculate_statistics_counts_witness:
  "read_flag dune \<noteq> None \<and> read_flag emma \<noteq> None
   \<and> calculate_statistics exact_div exact_mul (PList [dune, emma]) =
       Inr \<lparr> total_books = 2, read_books = 1, unread_books = 1,
             read_percentage = FloatVal 50 \<rparr>"
proof -
  have h: "\<forall>b\<in>set [dune, emma]. read_flag b \<noteq> None"
    by (auto simp: read_dune read_emma)
  have "calculate_statistics exact_div exact_mul (PList [dune, emma]) =
       Inr \<lparr> total_books = 2, read_books = 1, unread_books = 1,
             read_percentage = FloatVal 50 \<rparr>"
    using calculate_statistics_counts [where fdiv = exact_div and fmul = exact_mul, OF h]
    by (simp add: read_dune read_emma exact_div_def exact_mul_def)
  then show ?thesis by (simp add: read_dune read_emma)
qed
section \<open>Sorting for display\<close>

lemma insort_key_map:
  "insort_key f (g x) (map g xs) = map g (insort_key (\<lambda>x. f (g x)) x xs)"
  by (induction xs) auto

lemma sort_key_map: "sort_key f (map g xs) = map g (sort_key (\<lambda>x. f (g x)) xs)"
  by (induction xs) (auto simp: insort_key_map)

lemma sort_key_tagged: "map snd (sort_key fst (map (\<lambda>x. (k x, x)) ys)) = sort_key k ys"
  by (simp add: sort_key_map comp_def)

lemma sort_pairs_zip: "sort_pairs (zip (map k xs) xs) reverse = psort k reverse xs"
proof -
  have z: "zip (map k ys) ys = map (\<lambda>x. (k x, x)) ys" for ys
    by (induction ys) auto
  have r: "rev (map (\<lambda>x. (k x, x)) xs) = map (\<lambda>x. (k x, x)) (rev xs)"
    by (simp add: rev_map)
  have "map snd (rev (sort_key fst (rev (map (\<lambda>x. (k x, x)) xs))))
        = rev (map snd (sort_key fst (map (\<lambda>x. (k x, x)) (rev xs))))"
    by (simp only: r rev_map)
  also have "\<dots> = rev (sort_key k (rev xs))"
    by (simp only: sort_key_tagged)
  finally show ?thesis
    unfolding sort_pairs_def psort_def z
    by (simp only: sort_key_tagged if_distrib [of "map snd"])
qed

lemma map_raising_total:
  "\<forall>x\<in>set xs. f x = Inr (g x) \<Longrightarrow> map_raising f xs = Inr (map g xs)"
  by (induction xs) auto

lemma those_map_Some: "those (map (\<lambda>x. Some (g x)) xs) = Some (map g xs)"
  by (induction xs) auto

lemma psort_small: "length xs \<le> 1 \<Longrightarrow> psort k d xs = xs"
  by (cases xs) (auto simp: psort_def)

lemma list_sort_str:
  assumes "\<forall>x\<in>set xs. key x = Inr (PStr (k x))"
  shows "list_sort key reverse xs = Inr (psort k reverse xs)"
proof -
  have m: "map_raising key xs = Inr (map (\<lambda>x. PStr (k x)) xs)"
    using assms by (rule map_raising_total)
  have t: "those (map as_str (map (\<lambda>x. PStr (k x)) xs)) = Some (map k xs)"
    by (simp add: comp_def those_map_Some)
  show ?thesis
    unfolding list_sort_def m using t by (simp add: sort_pairs_zip psort_small)
qed

lemma list_sort_int:
  assumes "\<forall>x\<in>set xs. key x = Inr (PInt (k x))"
  shows "list_sort key reverse xs = Inr (psort k reverse xs)"
proof -
  have m: "map_raising key xs = Inr (map (\<lambda>x. PInt (k x)) xs)"
    using assms by (rule map_raising_total)
  have t: "those (map as_int (map (\<lambda>x. PInt (k x)) xs)) = Some (map k xs)"
    by (simp add: comp_def those_map_Some)
  have s: "length xs > 1 \<Longrightarrow> those (map as_str (map (\<lambda>x. PInt (k x)) xs)) = None"
    by (cases xs) (auto simp: comp_def)
  show ?thesis
    unfolding list_sort_def m using t s by (simp add: sort_pairs_zip psort_small)
qed

lemma mset_psort: "mset (psort k d xs) = mset xs"
  by (simp add: psort_def)

lemma set_psort: "set (psort k d xs) = set xs"
  by (simp add: psort_def)

lemma psort_sorted: "sorted_wrt (\<lambda>a b. if d then k b \<le> k a else k a \<le> k b) (psort k d xs)"
proof (cases d)
  case True
  have "sorted (map k (sort_key k (rev xs)))" by (rule sorted_sort_key)
  then have "sorted_wrt (\<lambda>a b. k a \<le> k b) (sort_key k (rev xs))"
    by (simp add: sorted_map)
  then have "sorted_wrt (\<lambda>a b. k b \<le> k a) (rev (sort_key k (rev xs)))"
    by (simp add: sorted_wrt_rev)
  with True show ?thesis by (simp add: psort_def)
next
  case False
  have "sorted (map k (sort_key k xs))" by (rule sorted_sort_key)
  then have "sorted_wrt (\<lambda>a b. k a \<le> k b) (sort_key k xs)"
    by (simp add: sorted_map)
  with False show ?thesis by (simp add: psort_def)
qed

lemma psort_stable: "filter (\<lambda>y. k y = c) (psort k d xs) = filter (\<lambda>y. k y = c) xs"
proof (cases d)
  case True
  have "filter (\<lambda>y. k y = c) (rev (sort_key k (rev xs)))
        = rev (filter (\<lambda>y. k y = c) (sort_key k (rev xs)))"
    by (simp add: rev_filter)
  also have "\<dots> = rev (filter (\<lambda>y. k y = c) (rev xs))"
    by (simp only: sort_key_stable)
  also have "\<dots> = filter (\<lambda>y. k y = c) xs"
    by (simp add: rev_filter)
  finally show ?thesis using True by (simp add: psort_def)
next
  case False
  then show ?thesis by (simp add: psort_def sort_key_stable)
qed

lemma psort_ordered_by:
  assumes "\<forall>b\<in>set xs. key b = Some (k b)"
  shows "ordered_by key d (psort k d xs)"
proof -
  have "sorted_wrt (\<lambda>a b. if d then k b \<le> k a else k a \<le> k b) (psort k d xs)"
    by (rule psort_sorted)
  then show ?thesis
    unfolding ordered_by_def
    by (rule sorted_wrt_mono_rel [rotated]) (use assms in \<open>auto simp: set_psort\<close>)
qed

lemma psort_stable_wrt:
  assumes "\<forall>b\<in>set xs. key b = Some (k b)"
  shows "stable_wrt key xs (psort k d xs)"
proof -
  have "filter (\<lambda>b. key b = Some c) ys = filter (\<lambda>b. k b = c) ys" if "set ys = set xs" for c ys
    by (rule filter_cong) (use assms that in auto)
  then show ?thesis
    by (simp add: stable_wrt_def set_psort psort_stable)
qed

lemma view_sort_text:
  assumes "sort_by \<noteq> Year" "\<forall>b\<in>set bs. text_key lower sort_by b \<noteq> None"
  shows "view_sort lower sort_by reverse_sort bs =
           Inr (psort (\<lambda>b. the (text_key lower sort_by b)) (descending sort_by reverse_sort) bs)"
proof (cases sort_by)
  case RecentlyAdded
  with assms have "\<forall>x\<in>set bs. py_getitem x (str ''added_date'')
      = Inr (PStr (the (text_key lower sort_by x)))"
    by (auto simp: str_field_getitem)
  then show ?thesis
    using RecentlyAdded by (simp add: view_sort_def list_sort_str descending_def)
next
  case Title
  with assms have "\<forall>x\<in>set bs. andthen (py_getitem x (str ''title'')) (\<lambda>t.
       andthen (py_lower lower t) (\<lambda>s. Inr (PStr s))) = Inr (PStr (the (text_key lower sort_by x)))"
    by (auto simp: str_field_getitem)
  then show ?thesis
    using Title by (simp add: view_sort_def list_sort_str descending_def)
next
  case Author
  with assms have "\<forall>x\<in>set bs. andthen (py_getitem x (str ''author'')) (\<lambda>t.
       andthen (py_lower lower t) (\<lambda>s. Inr (PStr s))) = Inr (PStr (the (text_key lower sort_by x)))"
    by (auto simp: str_field_getitem)
  then show ?thesis
    using Author by (simp add: view_sort_def list_sort_str descending_def)
next
  case Year
  with assms show ?thesis by simp
qed

lemma view_sort_year:
  assumes "\<forall>b\<in>set bs. year_key b \<noteq> None"
  shows "view_sort lower Year reverse_sort bs = Inr (psort (\<lambda>b. the (year_key b)) reverse_sort bs)"
proof -
  from assms have "\<forall>x\<in>set bs. py_getitem x (str ''year'') = Inr (PInt (the (year_key x)))"
    by (auto simp: year_key_def int_field_getitem)
  then show ?thesis
    by (simp add: view_sort_def list_sort_int)
qed

lemma psort_two:
  "k a < k b \<Longrightarrow> psort k False [a, b] = [a, b] \<and> psort k False [b, a] = [a, b]
     \<and> psort k True [a, b] = [b, a] \<and> psort k True [b, a] = [b, a]"
  by (auto simp: psort_def)

lemma added_dune_before_emma:
  "the (text_key lower RecentlyAdded dune) < the (text_key lower RecentlyAdded emma)"
  by (simp add: added_dune added_emma) (simp add: str_def)

lemma year_emma_before_dune: "the (year_key emma) < the (year_key dune)"
  by (simp add: year_dune year_emma)

text \<open>
  C3 (as stated, refuted). Dune was added before Emma. With the check box off, the view
  "Recently Added" shows Emma first, that is, in descending order of the date of addition,
  and with the check box on it shows Dune first; the claim says the opposite.
\<close>

theorem recently_added_toggle_polarity:
  "view_sort ascii_lower RecentlyAdded False [dune, emma] = Inr [emma, dune]
   \<and> view_sort ascii_lower RecentlyAdded True [dune, emma] = Inr [dune, emma]"
proof -
  have h: "\<forall>b\<in>set [dune, emma]. text_key ascii_lower RecentlyAdded b \<noteq> None"
    by (simp add: added_dune added_emma)
  show ?thesis
    using psort_two [of "\<lambda>b. the (text_key ascii_lower RecentlyAdded b)" dune emma, OF added_dune_before_emma]
    by (simp add: view_sort_text [OF _ h] descending_def)
qed

text \<open>
  C3 (amended). On a store whose records all have a string \<open>added_date\<close>, the view "Recently
  Added" shows the records of the store in descending order of \<open>added_date\<close> when the check
  box is off, and in ascending order when it is on.
\<close>

theorem recently_added_newest_first:
  assumes "\<forall>b\<in>set bs. str_field b (str ''added_date'') \<noteq> None"
  shows "\<exists>r. view_sort lower RecentlyAdded reverse_sort bs = Inr r \<and> mset r = mset bs
          \<and> ordered_by (\<lambda>b. str_field b (str ''added_date'')) (\<not> reverse_sort) r"
proof -
  from assms have k: "\<forall>b\<in>set bs. text_key lower RecentlyAdded b = Some (the (text_key lower RecentlyAdded b))"
    by auto
  have "(\<lambda>b. str_field b (str ''added_date'')) = text_key lower RecentlyAdded" by (simp add: fun_eq_iff)
  then show ?thesis
    using assms psort_ordered_by [OF k, of "\<not> reverse_sort"]
    by (simp add: view_sort_text mset_psort descending_def)
qed

theorem recently_added_newest_first_witness:
  "str_field dune (str ''added_date'') \<noteq> None \<and> str_field emma (str ''added_date'') \<noteq> None
   \<and> (\<exists>r. view_sort ascii_lower RecentlyAdded False [dune, emma] = Inr r \<and> mset r = mset [dune, emma]
          \<and> ordered_by (\<lambda>b. str_field b (str ''added_date'')) True r)"
proof -
  have h: "\<forall>b\<in>set [dune, emma]. str_field b (str ''added_date'') \<noteq> None"
    by (simp add: added_dune added_emma)
  have h': "str_field dune (str ''added_date'') \<noteq> None \<and> str_field emma (str ''added_date'') \<noteq> None"
    using h by simp
  from recently_added_newest_first [where lower = ascii_lower and reverse_sort = False, OF h]
  have "\<exists>r. view_sort ascii_lower RecentlyAdded False [dune, emma] = Inr r \<and> mset r = mset [dune, emma]
          \<and> ordered_by (\<lambda>b. str_field b (str ''added_date'')) True r"
    by simp
  with h' show ?thesis by (intro conjI) (erule conjE | assumption)+
qed

text \<open>
  C9. On records that have the key, and whatever function \<^verbatim>\<open>str.lower()\<close> is: sorting by
  title or by author orders the records by the lowered text, sorting by the date of
  addition or by the year orders them by the value itself, in the direction that the
  handler derives from the check box; the result is a rearrangement of the input, and
  records with equal keys keep the order they had.
\<close>

theorem view_sort_ordered_stable:
  "(sort_by \<noteq> Year \<and> (\<forall>b\<in>set bs. text_key lower sort_by b \<noteq> None) \<longrightarrow>
      (\<exists>r. view_sort lower sort_by reverse_sort bs = Inr r \<and> mset r = mset bs
          \<and> ordered_by (text_key lower sort_by) (descending sort_by reverse_sort) r
          \<and> stable_wrt (text_key lower sort_by) bs r))
   \<and> ((\<forall>b\<in>set bs. year_key b \<noteq> None) \<longrightarrow>
      (\<exists>r. view_sort lower Year reverse_sort bs = Inr r \<and> mset r = mset bs
          \<and> ordered_by year_key reverse_sort r
          \<and> stable_wrt year_key bs r))"
proof (intro conjI impI)
  assume h: "sort_by \<noteq> Year \<and> (\<forall>b\<in>set bs. text_key lower sort_by b \<noteq> None)"
  then have k: "\<forall>b\<in>set bs. text_key lower sort_by b = Some (the (text_key lower sort_by b))" by auto
  from h show "\<exists>r. view_sort lower sort_by reverse_sort bs = Inr r \<and> mset r = mset bs
          \<and> ordered_by (text_key lower sort_by) (descending sort_by reverse_sort) r
          \<and> stable_wrt (text_key lower sort_by) bs r"
    using psort_ordered_by [OF k] psort_stable_wrt [OF k]
    by (simp add: view_sort_text mset_psort)
next
  assume h: "\<forall>b\<in>set bs. year_key b \<noteq> None"
  then have k: "\<forall>b\<in>set bs. year_key b = Some (the (year_key b))" by auto
  from h show "\<exists>r. view_sort lower Year reverse_sort bs = Inr r \<and> mset r = mset bs
          \<and> ordered_by year_key reverse_sort r
          \<and> stable_wrt year_key bs r"
    using psort_ordered_by [OF k] psort_stable_wrt [OF k]
    by (simp add: view_sort_year mset_psort)
qed

theorem view_sort_ordered_stable_witness:
  "(Title \<noteq> Year \<and> text_key ascii_lower Title emma \<noteq> None \<and> text_key ascii_lower Title dune \<noteq> None)
   \<and> year_key dune \<noteq> None \<and> year_key emma \<noteq> None
   \<and> (\<exists>r. view_sort ascii_lower Title False [emma, dune] = Inr r \<and> mset r = mset [emma, dune]
          \<and> ordered_by (text_key ascii_lower Title) (descending Title False) r
          \<and> stable_wrt (text_key ascii_lower Title) [emma, dune] r)
   \<and> (\<exists>r. view_sort ascii_lower Year True [dune, emma] = Inr r \<and> mset r = mset [dune, emma]
          \<and> ordered_by year_key True r
          \<and> stable_wrt year_key [dune, emma] r)
   \<and> view_sort ascii_lower Year False [dune, emma] = Inr [emma, dune]
   \<and> view_sort ascii_lower Year True [dune, emma] = Inr [dune, emma]"
proof -
  have t: "Title \<noteq> Year \<and> (\<forall>b\<in>set [emma, dune]. text_key ascii_lower Title b \<noteq> None)"
    by (simp add: title_dune title_emma)
  have y: "\<forall>b\<in>set [dune, emma]. year_key b \<noteq> None"
    by (simp add: year_dune year_emma)
  have e: "view_sort ascii_lower Year False [dune, emma] = Inr [emma, dune]
      \<and> view_sort ascii_lower Year True [dune, emma] = Inr [dune, emma]"
    using psort_two [of "\<lambda>b. the (year_key b)" emma dune, OF year_emma_before_dune] by (simp add: view_sort_year [OF y])
  from view_sort_ordered_stable [where lower = ascii_lower and sort_by = Title
      and bs = "[emma, dune]" and reverse_sort = False] t
  have 1: "\<exists>r. view_sort ascii_lower Title False [emma, dune] = Inr r \<and> mset r = mset [emma, dune]
          \<and> ordered_by (text_key ascii_lower Title) (descending Title False) r
          \<and> stable_wrt (text_key ascii_lower Title) [emma, dune] r"
    by blast
  from view_sort_ordered_stable [where lower = ascii_lower and sort_by = Year
      and bs = "[dune, emma]" and reverse_sort = True] y
  have 2: "\<exists>r. view_sort ascii_lower Year True [dune, emma] = Inr r \<and> mset r = mset [dune, emma]
          \<and> ordered_by year_key True r
          \<and> stable_wrt year_key [dune, emma] r"
    by blast
  have t': "Title \<noteq> Year \<and> text_key ascii_lower Title emma \<noteq> None \<and> text_key ascii_lower Title dune \<noteq> None"
    using t by simp
  have y': "year_key dune \<noteq> None \<and> year_key emma \<noteq> None"
    using y by simp
  from t' y' 1 2 e show ?thesis by (intro conjI) (erule conjE | assumption)+
qed

text \<open>
  C8. When the library is an allocated object, the handler leaves every object that
  existed before the run as it was, the library among them, whatever the key and the
  check box, and also when the sort raises, in whatever order the interrupted sort leaves
  its list. When the handler completes, the sorted sequence is a new object, at an
  address that was free before, and holds the result of sorting the elements of the
  library.
\<close>

theorem view_all_books_frame:
  assumes "library < next_free h"
  shows "(\<forall>a < next_free h. cell (snd (view_all_books lower interrupted sort_by reverse_sort library h)) a = cell h a)
       \<and> (\<forall>s. fst (view_all_books lower interrupted sort_by reverse_sort library h) = Inr s \<longrightarrow>
            s \<noteq> library \<and> s = next_free h
            \<and> (\<exists>xs r. cell h library = PList xs \<and> view_sort lower sort_by reverse_sort xs = Inr r
                 \<and> cell (snd (view_all_books lower interrupted sort_by reverse_sort library h)) s = PList r))"
  using assms
  by (auto simp: view_all_books_def py_copy_def sort_in_place_def alloc_def
      split: pyval.splits sum.splits prod.splits)

theorem view_all_books_frame_witness:
  "(0::nat) < next_free \<lparr>cell = (\<lambda>a. PNone)(0 := PList [dune, emma]), next_free = 1\<rparr>
   \<and> cell (snd (view_all_books ascii_lower keep_order RecentlyAdded False 0
        \<lparr>cell = (\<lambda>a. PNone)(0 := PList [dune, emma]), next_free = 1\<rparr>)) 0 = PList [dune, emma]
   \<and> fst (view_all_books ascii_lower keep_order RecentlyAdded False 0
        \<lparr>cell = (\<lambda>a. PNone)(0 := PList [dune, emma]), next_free = 1\<rparr>) = Inr 1
   \<and> cell (snd (view_all_books ascii_lower keep_order RecentlyAdded False 0
        \<lparr>cell = (\<lambda>a. PNone)(0 := PList [dune, emma]), next_free = 1\<rparr>)) 1 = PList [emma, dune]"
proof -
  let ?h = "\<lparr>cell = (\<lambda>a. PNone)(0 := PList [dune, emma]), next_free = 1\<rparr>"
  have a: "(0::nat) < next_free ?h" by simp
  have h: "\<forall>b\<in>set [dune, emma]. text_key ascii_lower RecentlyAdded b \<noteq> None"
    by (simp add: added_dune added_emma)
  have v: "view_sort ascii_lower RecentlyAdded False [dune, emma] = Inr [emma, dune]"
    using psort_two [of "\<lambda>b. the (text_key ascii_lower RecentlyAdded b)" dune emma, OF added_dune_before_emma]
    by (simp add: view_sort_text [OF _ h] descending_def)
  have f: "fst (view_all_books ascii_lower keep_order RecentlyAdded False 0 ?h) = Inr 1"
    by (simp add: view_all_books_def py_copy_def sort_in_place_def alloc_def v)
  from view_all_books_frame [where lower = ascii_lower and interrupted = keep_order
      and sort_by = RecentlyAdded and reverse_sort = False, OF a] f v
  have "cell (snd (view_all_books ascii_lower keep_order RecentlyAdded False 0 ?h)) 0 = PList [dune, emma]
      \<and> cell (snd (view_all_books ascii_lower keep_order RecentlyAdded False 0 ?h)) 1 = PList [emma, dune]"
    by auto
  with a f show ?thesis by simp
qed

section \<open>Saving and loading\<close>

lemma hex_value_digit: "d < 16 \<Longrightarrow> hex_value (hex_digit d) = Some d"
  by (auto simp: hex_value_def hex_digit_def)

lemma parse_hex4_hex4: "n < 65536 \<Longrightarrow> parse_hex4 (hex4 n) = Some n"
proof -
  assume n: "n < 65536"
  define m1 where "m1 = n div 16"
  define m2 where "m2 = m1 div 16"
  define m3 where "m3 = m2 div 16"
  have d2: "n div 256 = m2" by (simp add: m2_def m1_def div_mult2_eq [symmetric])
  have d3: "n div 4096 = m3" by (simp add: m3_def m2_def m1_def div_mult2_eq [symmetric])
  have s: "m3 < 16" using n unfolding d3 [symmetric] by simp
  have "((m3 * 16 + m2 mod 16) * 16 + m1 mod 16) * 16 + n mod 16 = n"
    unfolding m3_def m2_def m1_def by (simp only: div_mult_mod_eq)
  then show ?thesis
    using s by (simp add: hex4_def hex_value_digit d2 d3 flip: m1_def)
qed


lemma hex4_length: "length (hex4 n) = 4"
  by (simp add: hex4_def)

lemma scan_string_u:
  assumes "u < 65536" "\<not> is_high_surrogate u"
  shows "scan_string (92 # 117 # hex4 u @ rest) = map_option (\<lambda>(t, r). (u # t, r)) (scan_string rest)"
proof -
  obtain a b c d where h: "hex4 u = [a, b, c, d]" by (simp add: hex4_def)
  have p: "parse_hex4 [a, b, c, d] = Some u"
    using parse_hex4_hex4 [OF assms(1)] h by simp
  show ?thesis
    unfolding h using p assms(2)
    by (subst scan_string.simps) (simp split: list.splits del: parse_hex4.simps)
qed

lemma scan_string_pair:
  assumes "is_high_surrogate u" "is_low_surrogate l"
  shows "scan_string (92 # 117 # hex4 u @ 92 # 117 # hex4 l @ rest)
     = map_option (\<lambda>(t, r). ((65536 + (u - 55296) * 1024 + (l - 56320)) # t, r)) (scan_string rest)"
proof -
  obtain a b c d where h: "hex4 u = [a, b, c, d]" by (simp add: hex4_def)
  obtain a' b' c' d' where h': "hex4 l = [a', b', c', d']" by (simp add: hex4_def)
  have "u < 65536" "l < 65536"
    using assms by (simp_all add: is_high_surrogate_def is_low_surrogate_def)
  then have p: "parse_hex4 [a, b, c, d] = Some u" "parse_hex4 [a', b', c', d'] = Some l"
    using parse_hex4_hex4 h h' by metis+
  show ?thesis
    unfolding h h' using p assms
    by (subst scan_string.simps) (simp del: parse_hex4.simps)
qed

lemma scan_string_closing: "scan_string (34 # rest) = Some ([], rest)"
  by (subst scan_string.simps) simp

lemma scan_string_plain:
  "c \<noteq> 34 \<Longrightarrow> c \<noteq> 92 \<Longrightarrow> 32 \<le> c \<Longrightarrow>
   scan_string (c # rest) = map_option (\<lambda>(t, r). (c # t, r)) (scan_string rest)"
  by (subst scan_string.simps) simp

lemma scan_string_short:
  "unescape e = Some x \<Longrightarrow> e \<noteq> 117 \<Longrightarrow>
   scan_string (92 # e # rest) = map_option (\<lambda>(t, r). (x # t, r)) (scan_string rest)"
  by (subst scan_string.simps) simp

lemma scan_string_escape:
  assumes "valid_cp c"
  shows "scan_string (escape_cp c @ rest) = map_option (\<lambda>(t, r). (c # t, r)) (scan_string rest)"
proof -
  consider (two) "c \<in> {34, 92, 10, 13, 9, 8, 12}"
    | (plain) "c \<notin> {34, 92, 10, 13, 9, 8, 12}" "32 \<le> c" "c \<le> 126"
    | (bmp) "c \<notin> {34, 92, 10, 13, 9, 8, 12}" "\<not> (32 \<le> c \<and> c \<le> 126)" "c < 65536"
    | (astral) "65536 \<le> c"
    by fastforce
  then show ?thesis
  proof cases
    case two
    then show ?thesis
      by (auto simp: escape_cp_def unescape_def scan_string_short)
  next
    case plain
    then show ?thesis
      by (simp add: escape_cp_def scan_string_plain)
  next
    case bmp
    with assms have "\<not> is_high_surrogate c"
      by (auto simp: valid_cp_def is_high_surrogate_def)
    with bmp show ?thesis
      using scan_string_u [of c rest] by (auto simp: escape_cp_def)
  next
    case astral
    define v where "v = c - 65536"
    from astral assms have v: "v < 1048576" "c = 65536 + v"
      by (auto simp: v_def valid_cp_def)
    then have d: "v div 1024 mod 1024 = v div 1024" by simp
    have hi: "is_high_surrogate (55296 + v div 1024)"
      using v by (simp add: is_high_surrogate_def)
    have lo: "is_low_surrogate (56320 + v mod 1024)"
      by (simp add: is_low_surrogate_def)
    have e: "escape_cp c = 92 # 117 # hex4 (55296 + v div 1024) @ 92 # 117 # hex4 (56320 + v mod 1024)"
      using astral by (simp add: escape_cp_def v_def [symmetric] d)
    have recombine: "65536 + (55296 + v div 1024 - 55296) * 1024 + (56320 + v mod 1024 - 56320) = c"
      using v by simp
    show ?thesis
      unfolding e using scan_string_pair [OF hi lo, of rest] recombine by simp
  qed
qed

lemma scan_string_quote:
  "valid_str s \<Longrightarrow> scan_string (concat (map escape_cp s) @ 34 # rest) = Some (s, rest)"
proof (induction s)
  case Nil
  show ?case by (simp add: scan_string_closing)
next
  case (Cons c s)
  then show ?case by (simp add: valid_str_def scan_string_escape)
qed

lemma digits_shape:
  "(n = 0 \<and> digits n = [48])
   \<or> (0 < n \<and> (\<exists>d ds. digits n = d # ds \<and> 49 \<le> d \<and> d \<le> 57 \<and> list_all is_digit ds))"
proof (induction n rule: digits.induct)
  case (1 n)
  show ?case
  proof (cases "n < 10")
    case True
    then show ?thesis by (subst digits.simps, subst (2) digits.simps) auto
  next
    case False
    then have p: "0 < n div 10" by simp
    with 1 False obtain d ds where
      h: "digits (n div 10) = d # ds" "49 \<le> d" "d \<le> 57" "list_all is_digit ds"
      by auto
    have "digits n = d # (ds @ [48 + n mod 10])"
      using False h by (subst digits.simps) simp
    moreover have "list_all is_digit (ds @ [48 + n mod 10])"
      using h by (simp add: is_digit_def)
    ultimately show ?thesis using False h by auto
  qed
qed

lemma nat_of_digits_snoc: "nat_of_digits (ds @ [d]) = 10 * nat_of_digits ds + (d - 48)"
  by (simp add: nat_of_digits_def)

lemma nat_of_digits_digits: "nat_of_digits (digits n) = n"
proof (induction n rule: digits.induct)
  case (1 n)
  show ?case
  proof (cases "n < 10")
    case True
    then show ?thesis by (subst digits.simps) (simp add: nat_of_digits_def)
  next
    case False
    with 1 have "nat_of_digits (digits (n div 10)) = n div 10" by simp
    with False show ?thesis by (subst digits.simps) (simp add: nat_of_digits_snoc)
  qed
qed

lemma delim_cases: "delim rest \<Longrightarrow> rest = [] \<or> (\<exists>c cs. rest = c # cs \<and> (c = 44 \<or> c = 93 \<or> c = 125))"
  by (cases rest) (auto simp: delim_def)

lemma scan_tail:
  assumes "delim rest"
  shows "takeWhile is_digit rest = []" "dropWhile is_digit rest = rest"
    "scan_frac rest = ([], rest)" "scan_exp rest = ([], rest)"
  using delim_cases [OF assms]
  by (auto simp: is_digit_def scan_frac_def scan_exp_def split: list.splits)

lemma scan_int_part_digits:
  assumes "delim rest"
  shows "scan_int_part (digits n @ rest) = Some (digits n, rest)"
proof -
  from digits_shape [of n] show ?thesis
  proof
    assume "n = 0 \<and> digits n = [48]"
    then have "digits n = [48]" by (rule conjunct2)
    then show ?thesis by (simp add: scan_int_part_def)
  next
    assume "0 < n \<and> (\<exists>d ds. digits n = d # ds \<and> 49 \<le> d \<and> d \<le> 57 \<and> list_all is_digit ds)"
    then obtain d ds where h: "digits n = d # ds" "49 \<le> d" "d \<le> 57" "list_all is_digit ds"
      by auto
    have "takeWhile is_digit (ds @ rest) = ds" "dropWhile is_digit (ds @ rest) = rest"
      using h(4) scan_tail [OF assms]
      by (simp_all add: takeWhile_append2 dropWhile_append2 list_all_iff)
    with h show ?thesis by (simp add: scan_int_part_def is_digit_def)
  qed
qed

lemma digits_not_minus: "digits n = d # ds \<Longrightarrow> 48 \<le> d \<and> d \<le> 57"
  using digits_shape [of n] by auto

lemma scan_number_int_repr:
  assumes "delim rest" "md = 0 \<or> length (digits (nat \<bar>i\<bar>)) \<le> md"
  shows "scan_number md (int_repr i @ rest) = Some (PInt i, rest)"
proof (cases "i < 0")
  case True
  then have a: "nat \<bar>i\<bar> = nat (- i)" by simp
  have s: "scan_sign (int_repr i @ rest) = ([45], digits (nat (- i)) @ rest)"
    using True by (simp add: int_repr_def scan_sign_def)
  have "- int (nat_of_digits (digits (nat (- i)))) = i"
    using True by (simp add: nat_of_digits_digits)
  then show ?thesis
    using assms(2) unfolding scan_number_def s a
    by (auto simp: scan_int_part_digits [OF assms(1)] scan_tail [OF assms(1)])
next
  case False
  then have a: "nat \<bar>i\<bar> = nat i" by simp
  obtain d ds where h: "digits (nat i) = d # ds"
    using digits_shape [of "nat i"] by auto
  then have "d \<noteq> 45" using digits_not_minus [OF h] by simp
  then have s: "scan_sign (int_repr i @ rest) = ([], digits (nat i) @ rest)"
    using False h by (simp add: int_repr_def scan_sign_def)
  have "int (nat_of_digits (digits (nat i))) = i"
    using False by (simp add: nat_of_digits_digits)
  then show ?thesis
    using assms(2) unfolding scan_number_def s a
    by (auto simp: scan_int_part_digits [OF assms(1)] scan_tail [OF assms(1)])
qed

lemma scan_word_none:
  "c \<notin> {110, 116, 102, 78, 73} \<Longrightarrow> (c = 45 \<longrightarrow> (\<exists>d ds. cs = d # ds \<and> d \<noteq> 73))
   \<Longrightarrow> scan_word (c # cs) = None"
  by (auto simp: scan_word_def str_def)

lemma scan_word_int_repr: "scan_word (int_repr i @ rest) = None"
proof (cases "i < 0")
  case True
  obtain d ds where h: "digits (nat (- i)) = d # ds"
    using digits_shape [of "nat (- i)"] by auto
  from digits_not_minus [OF h] have "d \<noteq> 73" by simp
  with True h show ?thesis
    by (simp add: int_repr_def scan_word_none)
next
  case False
  obtain d ds where h: "digits (nat i) = d # ds"
    using digits_shape [of "nat i"] by auto
  from digits_not_minus [OF h] have "d \<notin> {110, 116, 102, 78, 73}" "d \<noteq> 45" by auto
  with False h show ?thesis
    by (simp add: int_repr_def scan_word_none)
qed

lemma int_repr_first: "\<exists>c cs. int_repr i @ rest = c # cs \<and> (c = 45 \<or> (48 \<le> c \<and> c \<le> 57))"
proof -
  obtain d ds where h: "digits (nat i) = d # ds"
    using digits_shape [of "nat i"] by auto
  from digits_not_minus [OF h] h show ?thesis
    by (auto simp: int_repr_def)
qed

lemma skip_ws_keep: "\<not> is_ws c \<Longrightarrow> skip_ws (c # cs) = c # cs"
  by (simp add: skip_ws_def)

lemma skip_ws_space: "skip_ws (32 # s) = skip_ws s"
  by (simp add: skip_ws_def is_ws_def)

lemma starter_simps:
  "starter c \<Longrightarrow> \<not> is_ws c" "starter c \<Longrightarrow> c \<noteq> 93" "starter c \<Longrightarrow> c \<noteq> 125"
  "starter c \<Longrightarrow> c \<noteq> 65279"
  by (auto simp: starter_def is_ws_def)

lemma encode_first:
  assumes "json_ok lims v"
  shows "\<exists>c cs. encode v @ rest = c # cs \<and> starter c"
proof (cases v)
  case (PInt i)
  then show ?thesis using int_repr_first [of i rest] by (auto simp: starter_def)
qed (use assms in \<open>auto simp: starter_def str_def quote_def\<close>)

lemma join_Cons: "join (x # xs) = x @ (if xs = [] then [] else 44 # 32 # join xs)"
  by (cases xs) auto

lemma dict_set_new: "k \<notin> fst ` set acc \<Longrightarrow> dict_set k v acc = acc @ [(k, v)]"
  by (induction acc) auto

lemma foldr_max_le: "foldr max ys (0::nat) \<le> m \<longleftrightarrow> (\<forall>y\<in>set ys. y \<le> m)"
  by (induction ys) auto

lemma weight_pos: "0 < weight v"
  by (cases v) auto

lemma parse_items_encode:
  assumes "\<And>x n d rest. x \<in> set xs \<Longrightarrow> json_ok lims x \<Longrightarrow> weight x \<le> n \<Longrightarrow> depth x \<le> d
             \<Longrightarrow> delim rest
             \<Longrightarrow> parse_value (max_str_digits lims) n d (encode x @ rest) = Some (x, rest)"
    and "xs \<noteq> []" "list_all (json_ok lims) xs"
    and "length xs + sum_list (map weight xs) \<le> n" "\<forall>x\<in>set xs. depth x \<le> d"
  shows "parse_items (max_str_digits lims) n d acc (join (map encode xs) @ 93 # rest)
           = Some (PList (acc @ xs), rest)"
  using assms
proof (induction xs arbitrary: n acc)
  case Nil
  then show ?case by simp
next
  case (Cons x xs)
  from Cons.prems(4) obtain n' where n: "n = Suc n'" by (cases n) auto
  have wx: "weight x \<le> n'" using Cons.prems(4) n by simp
  have ok: "json_ok lims x" "depth x \<le> d" using Cons.prems by auto
  have pv: "parse_value (max_str_digits lims) n' d (encode x @ r) = Some (x, r)" if "delim r" for r
    using Cons.prems(1) [of x n' d r] ok wx that by simp
  show ?case
  proof (cases "xs = []")
    case True
    have "delim (93 # rest)" by (simp add: delim_def)
    from pv [OF this] True show ?thesis
      by (simp add: n skip_ws_keep is_ws_def)
  next
    case False
    have ih: "parse_items (max_str_digits lims) n' d (acc @ [x]) (join (map encode xs) @ 93 # rest)
           = Some (PList ((acc @ [x]) @ xs), rest)"
    proof (rule Cons.IH)
      show "xs \<noteq> []" by (rule False)
      show "list_all (json_ok lims) xs" using Cons.prems(3) by simp
      show "length xs + sum_list (map weight xs) \<le> n'" using Cons.prems(4) n by simp
      show "\<forall>x\<in>set xs. depth x \<le> d" using Cons.prems(5) by simp
    next
      fix y m e r
      assume "y \<in> set xs" "json_ok lims y" "weight y \<le> m" "depth y \<le> e" "delim r"
      then show "parse_value (max_str_digits lims) m e (encode y @ r) = Some (y, r)"
        using Cons.prems(1) [of y m e r] by simp
    qed
    from False obtain y ys where xs: "xs = y # ys" by (cases xs) auto
    have "json_ok lims y" using Cons.prems(3) xs by simp
    from encode_first [OF this] obtain c cs where
      f: "encode y @ ((if ys = [] then [] else 44 # 32 # join (map encode ys)) @ 93 # rest) = c # cs"
         "starter c"
      by blast
    have j: "join (map encode xs) @ 93 # rest = c # cs"
      using f(1) by (simp add: xs join_Cons)
    have d: "delim (44 # 32 # join (map encode xs) @ 93 # rest)" by (simp add: delim_def)
    have e: "join (map encode (x # xs)) @ 93 # rest
               = encode x @ 44 # 32 # join (map encode xs) @ 93 # rest"
      using False by (simp add: join_Cons)
    show ?thesis
      unfolding e n using pv [OF d] ih
      by (simp add: skip_ws_keep is_ws_def skip_ws_space j [symmetric] starter_simps(1) [OF f(2)]
          del: append_assoc)
         (simp add: j skip_ws_keep starter_simps(1) [OF f(2)])
  qed
qed

lemma member_text:
  "member (k, v) @ r = 34 # concat (map escape_cp k) @ 34 # 58 # 32 # encode v @ r"
  by (simp add: member_def quote_def)

lemma parse_members_step:
  assumes "valid_str k" "starter c" "encode v @ r = c # cs"
  shows "parse_members md (Suc n) d acc (member (k, v) @ r) =
     (case parse_value md n d (encode v @ r) of
        None \<Rightarrow> None
      | Some (v', r2) \<Rightarrow>
          (case skip_ws r2 of
             [] \<Rightarrow> None
           | x # xs \<Rightarrow>
               if x = 125 then Some (PDict (dict_set k v' acc), xs)
               else if x = 44 then parse_members md n d (dict_set k v' acc) (skip_ws xs)
               else None))"
proof -
  have k1: "skip_ws (58 # x) = 58 # x" for x
    by (simp add: skip_ws_def is_ws_def)
  have k2: "skip_ws (32 # c # cs) = c # cs"
    using assms(2) by (simp add: skip_ws_space skip_ws_keep starter_simps(1))
  show ?thesis
    unfolding member_text
    using scan_string_quote [OF assms(1), of "58 # 32 # encode v @ r"] assms(3)
    by (simp add: k1 k2)
qed

lemma parse_members_encode:
  assumes "\<And>k v n d rest. (k, v) \<in> set kvs \<Longrightarrow> json_ok lims v \<Longrightarrow> weight v \<le> n \<Longrightarrow> depth v \<le> d
             \<Longrightarrow> delim rest
             \<Longrightarrow> parse_value (max_str_digits lims) n d (encode v @ rest) = Some (v, rest)"
    and "kvs \<noteq> []" "list_all (\<lambda>kv. valid_str (fst kv) \<and> json_ok lims (snd kv)) kvs"
    and "distinct (map fst (acc @ kvs))"
    and "length kvs + sum_list (map (\<lambda>kv. weight (snd kv)) kvs) \<le> n"
    and "\<forall>kv\<in>set kvs. depth (snd kv) \<le> d"
  shows "parse_members (max_str_digits lims) n d acc (join (map member kvs) @ 125 # rest)
           = Some (PDict (acc @ kvs), rest)"
  using assms
proof (induction kvs arbitrary: n acc)
  case Nil
  then show ?case by simp
next
  case (Cons kv kvs)
  obtain k v where kv: "kv = (k, v)" by (cases kv)
  from Cons.prems(5) obtain n' where n: "n = Suc n'" by (cases n) auto
  have wx: "weight v \<le> n'" using Cons.prems(5) n kv by simp
  have ok: "valid_str k" "json_ok lims v" "depth v \<le> d" using Cons.prems kv by auto
  have new: "dict_set k v acc = acc @ [(k, v)]"
    using Cons.prems(4) kv by (intro dict_set_new) auto
  have pv: "parse_value (max_str_digits lims) n' d (encode v @ r) = Some (v, r)" if "delim r" for r
    using Cons.prems(1) [of k v n' d r] ok wx that kv by simp
  from encode_first [OF ok(2)] obtain c cs where
    f: "\<And>r. \<exists>cs. encode v @ r = c # cs" "starter c"
    by (metis append_Cons append_Nil2)
  show ?case
  proof (cases "kvs = []")
    case True
    have d: "delim (125 # rest)" by (simp add: delim_def)
    obtain cs where c: "encode v @ 125 # rest = c # cs" using f(1) by blast
    have e: "join (map member (kv # kvs)) @ 125 # rest = member (k, v) @ 125 # rest"
      using True by (simp add: kv)
    show ?thesis
      unfolding e n parse_members_step [OF ok(1) f(2) c] pv [OF d]
      using True new by (simp add: skip_ws_keep is_ws_def kv)
  next
    case False
    have ih: "parse_members (max_str_digits lims) n' d (acc @ [(k, v)])
                (join (map member kvs) @ 125 # rest)
           = Some (PDict ((acc @ [(k, v)]) @ kvs), rest)"
    proof (rule Cons.IH)
      show "kvs \<noteq> []" by (rule False)
      show "list_all (\<lambda>kv. valid_str (fst kv) \<and> json_ok lims (snd kv)) kvs"
        using Cons.prems(3) by simp
      show "distinct (map fst ((acc @ [(k, v)]) @ kvs))" using Cons.prems(4) kv by simp
      show "length kvs + sum_list (map (\<lambda>kv. weight (snd kv)) kvs) \<le> n'"
        using Cons.prems(5) n by simp
      show "\<forall>kv\<in>set kvs. depth (snd kv) \<le> d" using Cons.prems(6) by simp
    next
      fix k' y m e r
      assume "(k', y) \<in> set kvs" "json_ok lims y" "weight y \<le> m" "depth y \<le> e" "delim r"
      then show "parse_value (max_str_digits lims) m e (encode y @ r) = Some (y, r)"
        using Cons.prems(1) [of k' y m e r] by simp
    qed
    from False obtain p ps where kvs: "kvs = p # ps" by (cases kvs) auto
    have j: "join (map member kvs) @ 125 # rest = 34 # tl (join (map member kvs) @ 125 # rest)"
      by (cases p) (simp add: kvs join_Cons member_def quote_def)
    let ?tail = "44 # 32 # join (map member kvs) @ 125 # rest"
    have d: "delim ?tail" by (simp add: delim_def)
    obtain cs where c: "encode v @ ?tail = c # cs" using f(1) by blast
    have e: "join (map member (kv # kvs)) @ 125 # rest = member (k, v) @ ?tail"
      using False by (simp add: join_Cons kv)
    have s: "skip_ws (32 # join (map member kvs) @ 125 # rest) = join (map member kvs) @ 125 # rest"
      unfolding skip_ws_space by (subst j, subst (2) j) (simp add: skip_ws_keep is_ws_def)
    show ?thesis
      unfolding e n parse_members_step [OF ok(1) f(2) c] pv [OF d]
      using ih new s by (simp add: skip_ws_keep is_ws_def kv)
  qed
qed

lemma parse_value_atom:
  "c \<noteq> 34 \<Longrightarrow> c \<noteq> 123 \<Longrightarrow> c \<noteq> 91 \<Longrightarrow>
   parse_value md (Suc n) d (c # cs) =
     (case scan_word (c # cs) of Some r \<Rightarrow> Some r | None \<Rightarrow> scan_number md (c # cs))"
  by simp

lemma parse_value_encode:
  "json_ok lims v \<Longrightarrow> weight v \<le> n \<Longrightarrow> depth v \<le> d \<Longrightarrow> delim rest \<Longrightarrow>
   parse_value (max_str_digits lims) n d (encode v @ rest) = Some (v, rest)"
proof (induction v arbitrary: n d rest)
  case PNone
  then obtain n' where "n = Suc n'" by (cases n) auto
  then show ?case by (simp add: str_def scan_word_def)
next
  case (PBool b)
  then obtain n' where "n = Suc n'" by (cases n) auto
  then show ?case by (simp add: str_def scan_word_def)
next
  case (PInt i)
  then obtain n' where n: "n = Suc n'" by (cases n) auto
  obtain c cs where c: "int_repr i @ rest = c # cs" "c = 45 \<or> (48 \<le> c \<and> c \<le> 57)"
    using int_repr_first [of i rest] by blast
  then have "c \<noteq> 34" "c \<noteq> 123" "c \<noteq> 91" by auto
  from parse_value_atom [OF this, of "max_str_digits lims" n' d cs]
  have "parse_value (max_str_digits lims) n d (int_repr i @ rest) =
     (case scan_word (int_repr i @ rest) of
        Some r \<Rightarrow> Some r | None \<Rightarrow> scan_number (max_str_digits lims) (int_repr i @ rest))"
    unfolding c(1) n .
  then show ?case
    using PInt.prems
    by (simp add: scan_word_int_repr scan_number_int_repr int_within_def)
next
  case (PFloat lit)
  then show ?case by simp
next
  case (PStr s)
  then obtain n' where "n = Suc n'" by (cases n) auto
  with PStr.prems show ?case
    by (simp add: quote_def scan_string_quote)
next
  case (PList xs)
  from PList.prems obtain n' where n: "n = Suc n'" by (cases n) auto
  from PList.prems obtain d' where d: "d = Suc d'" by (cases d) auto
  show ?case
  proof (cases "xs = []")
    case True
    then show ?thesis by (simp add: n d skip_ws_keep is_ws_def)
  next
    case False
    then obtain y ys where xs: "xs = y # ys" by (cases xs) auto
    have "json_ok lims y" using PList.prems(1) xs by simp
    from encode_first [OF this] obtain c cs where
      f: "encode y @ ((if ys = [] then [] else 44 # 32 # join (map encode ys)) @ 93 # rest) = c # cs"
         "starter c"
      by blast
    have j: "join (map encode xs) @ 93 # rest = c # cs"
      using f(1) by (simp add: xs join_Cons)
    have "parse_items (max_str_digits lims) n' d' [] (join (map encode xs) @ 93 # rest)
            = Some (PList ([] @ xs), rest)"
    proof (rule parse_items_encode)
      show "xs \<noteq> []" by (rule False)
      show "list_all (json_ok lims) xs" using PList.prems(1) by simp
      show "length xs + sum_list (map weight xs) \<le> n'" using PList.prems(2) n by simp
      show "\<forall>x\<in>set xs. depth x \<le> d'" using PList.prems(3) d by (simp add: foldr_max_le)
    next
      fix x m e r
      assume "x \<in> set xs" "json_ok lims x" "weight x \<le> m" "depth x \<le> e" "delim r"
      then show "parse_value (max_str_digits lims) m e (encode x @ r) = Some (x, r)"
        by (rule PList.IH)
    qed
    then show ?thesis
      using starter_simps [OF f(2)] by (simp add: n d j skip_ws_keep)
  qed
next
  case (PDict kvs)
  from PDict.prems obtain n' where n: "n = Suc n'" by (cases n) auto
  from PDict.prems obtain d' where d: "d = Suc d'" by (cases d) auto
  have e: "encode (PDict kvs) @ rest = 123 # join (map member kvs) @ 125 # rest"
    by (simp add: member_def)
  show ?case
  proof (cases "kvs = []")
    case True
    then show ?thesis by (simp add: n d skip_ws_keep is_ws_def)
  next
    case False
    then obtain p ps where kvs: "kvs = p # ps" by (cases kvs) auto
    have j: "join (map member kvs) @ 125 # rest = 34 # tl (join (map member kvs) @ 125 # rest)"
      by (cases p) (simp add: kvs join_Cons member_def quote_def)
    have "parse_members (max_str_digits lims) n' d' [] (join (map member kvs) @ 125 # rest)
            = Some (PDict ([] @ kvs), rest)"
    proof (rule parse_members_encode)
      show "kvs \<noteq> []" by (rule False)
      show "list_all (\<lambda>kv. valid_str (fst kv) \<and> json_ok lims (snd kv)) kvs"
        using PDict.prems(1) by simp
      show "distinct (map fst ([] @ kvs))" using PDict.prems(1) by simp
      show "length kvs + sum_list (map (\<lambda>kv. weight (snd kv)) kvs) \<le> n'"
        using PDict.prems(2) n by simp
      show "\<forall>kv\<in>set kvs. depth (snd kv) \<le> d'"
        using PDict.prems(3) d by (simp add: foldr_max_le)
    next
      fix k x m e r
      assume "(k, x) \<in> set kvs" "json_ok lims x" "weight x \<le> m" "depth x \<le> e" "delim r"
      then show "parse_value (max_str_digits lims) m e (encode x @ r) = Some (x, r)"
        using PDict.IH [of "(k, x)" x m e r] by simp
    qed
    then show ?thesis
      unfolding e n d
      by (subst j, subst (asm) j) (simp add: skip_ws_keep is_ws_def)
  qed
qed

lemma length_join:
  "xs \<noteq> [] \<Longrightarrow> length (join xs) + 2 = sum_list (map length xs) + 2 * length xs"
  by (induction xs rule: join.induct) auto

lemma weight_le_length: "json_ok lims v \<Longrightarrow> weight v \<le> length (encode v)"
proof (induction v)
  case (PInt i)
  obtain c cs where "int_repr i @ [] = c # cs" using int_repr_first [of i "[]"] by blast
  then show ?case by simp
next
  case (PList xs)
  have "sum_list (map weight xs) \<le> sum_list (map length (map encode xs))"
    unfolding map_map comp_def
    by (rule sum_list_mono) (use PList in \<open>auto simp: list_all_iff\<close>)
  then show ?case
    using length_join [of "map encode xs"] by (cases xs) auto
next
  case (PDict kvs)
  have "sum_list (map (\<lambda>kv. weight (snd kv)) kvs) \<le> sum_list (map length (map member kvs))"
    unfolding map_map comp_def
  proof (rule sum_list_mono)
    fix kv assume m: "kv \<in> set kvs"
    obtain k v where kv: "kv = (k, v)" by (cases kv)
    have "json_ok lims v" using PDict.prems m kv by (auto simp: list_all_iff)
    with PDict.IH [of kv v] m kv have "weight v \<le> length (encode v)" by simp
    then show "weight (snd kv) \<le> length (member kv)" by (simp add: kv member_def)
  qed
  moreover have "encode (PDict kvs) = 123 # join (map member kvs) @ [125]"
    by (simp add: member_def)
  ultimately show ?case
    using length_join [of "map member kvs"] by (cases kvs) (auto simp del: encode.simps)
qed (auto simp: str_def quote_def)

lemma json_loads_encode:
  assumes "json_ok lims v" "depth v \<le> load_depth lims"
  shows "json_loads lims (encode v) = Some v"
proof -
  obtain c cs where f: "encode v @ [] = c # cs" "starter c"
    using encode_first [OF assms(1)] by blast
  have "delim []" by (simp add: delim_def)
  moreover have "weight v \<le> Suc (length (encode v))"
    using weight_le_length [OF assms(1)] by simp
  ultimately have "parse_value (max_str_digits lims) (Suc (length (encode v))) (load_depth lims)
      (encode v @ []) = Some (v, [])"
    using assms by (intro parse_value_encode)
  moreover have "skip_ws (encode v) = encode v"
    using f starter_simps(1) [OF f(2)] by (simp add: skip_ws_keep)
  ultimately show ?thesis
    using f starter_simps(4) [OF f(2)]
    by (simp add: json_loads_def skip_ws_def del: parse_value.simps)
qed

lemma printable_json_ok: "json_ok lims v \<Longrightarrow> printable lims v"
  by (induction v) (auto simp: list_all_iff)

lemma deep_enough: "2 \<le> (n::nat) \<Longrightarrow> \<exists>d. n = Suc (Suc d)"
  by (metis Suc_le_D numeral_2_eq_2 Suc_le_mono)

lemma loads_empty_object: "1 \<le> load_depth lims \<Longrightarrow> json_loads lims (str ''{}'') = Some (PDict [])"
  by (cases "load_depth lims") (simp_all add: json_loads_def str_def skip_ws_def is_ws_def)

lemma loads_empty_array: "1 \<le> load_depth lims \<Longrightarrow> json_loads lims (str ''[]'') = Some (PList [])"
  by (cases "load_depth lims") (simp_all add: json_loads_def str_def skip_ws_def is_ws_def)

lemma loads_no_fields:
  assumes "2 \<le> load_depth lims"
  shows "json_loads lims (str ''[{}]'') = Some (PList [PDict []])"
proof -
  from deep_enough [OF assms] obtain d where d: "load_depth lims = Suc (Suc d)" by blast
  show ?thesis
    by (simp add: json_loads_def d str_def skip_ws_def is_ws_def)
qed

lemma loads_null_title:
  assumes "2 \<le> load_depth lims"
  shows "json_loads lims (str ''[{\"title\": null}]'') = Some (PList [PDict [(str ''title'', PNone)]])"
proof -
  from deep_enough [OF assms] obtain d where d: "load_depth lims = Suc (Suc d)" by blast
  show ?thesis
    by (simp add: json_loads_def d str_def skip_ws_def is_ws_def scan_word_def scan_string.simps)
qed

lemma loads_truncated: "json_loads lims (str ''[{\"title\": \"Dune\"}'') = None"
  by (cases "load_depth lims"; cases "load_depth lims - 1")
     (simp_all add: json_loads_def str_def skip_ws_def is_ws_def scan_word_def scan_string.simps)

lemma search_loop_fault:
  "search_loop lower t k bs = Inl e \<Longrightarrow> e = KeyError \<or> e = TypeError \<or> e = AttributeError"
proof (induction bs)
  case Nil
  then show ?case by simp
next
  case (Cons a bs)
  show ?case
  proof (cases "py_getitem a k")
    case (Inl x)
    then have "x = KeyError \<or> x = TypeError"
      by (cases a) (auto split: option.splits)
    with Inl Cons.prems show ?thesis by auto
  next
    case (Inr f)
    show ?thesis
    proof (cases "py_lower lower f")
      case (Inl x)
      then have "x = AttributeError" by (cases f) auto
      with Inl Inr Cons.prems show ?thesis by auto
    next
      case r: (Inr h)
      with Inr Cons show ?thesis
        by (cases "search_loop lower t k bs") auto
    qed
  qed
qed

text \<open>
  C1. When the file can be written and the store is a value that JSON represents without
  loss, no deeper than the encoder and the decoder can follow (a list of records with
  text, integer and Boolean fields is such a value, of depth 2), saving succeeds, and
  loading the same file right after it succeeds and yields a store equal to the store
  that was saved: the same records with the same fields, in the same order.
\<close>

theorem save_then_load_round_trip:
  assumes "writable w filename" "json_ok lims (session_library w)"
    and "depth (session_library w) \<le> dump_depth lims"
    and "depth (session_library w) \<le> load_depth lims"
  shows "\<exists>w1 w2. save_library_to_file lims filename w = Inr (Success, w1)
           \<and> load_library_from_file lims filename w1 = (Success, w2)
           \<and> session_library w2 = session_library w"
  using assms
  by (simp add: save_library_to_file_def load_library_from_file_def json_dumps_def
      printable_json_ok json_loads_encode)

theorem save_then_load_round_trip_witness:
  "writable (world_with (PList [dune, emma]) []) (str ''library.json'')
   \<and> json_ok usual_limits (session_library (world_with (PList [dune, emma]) []))
   \<and> depth (session_library (world_with (PList [dune, emma]) [])) \<le> dump_depth usual_limits
   \<and> depth (session_library (world_with (PList [dune, emma]) [])) \<le> load_depth usual_limits
   \<and> (\<exists>w1 w2. save_library_to_file usual_limits (str ''library.json'')
                  (world_with (PList [dune, emma]) []) = Inr (Success, w1)
           \<and> load_library_from_file usual_limits (str ''library.json'') w1 = (Success, w2)
           \<and> session_library w2 = PList [dune, emma])"
proof -
  let ?w = "world_with (PList [dune, emma]) []"
  have a: "writable ?w (str ''library.json'')"
    by (simp add: world_with_def)
  have d: "length (digits 1965) \<le> 4300" "length (digits 1815) \<le> 4300"
    by (simp_all add: digits.simps)
  have b: "json_ok usual_limits (session_library ?w)"
    using d
    by (simp add: world_with_def dune_def emma_def new_book_def usual_limits_def int_within_def
        valid_str_def valid_cp_def str_def)
  have c: "depth (session_library ?w) \<le> dump_depth usual_limits"
    "depth (session_library ?w) \<le> load_depth usual_limits"
    by (simp_all add: world_with_def dune_def emma_def new_book_def usual_limits_def)
  from save_then_load_round_trip [OF a b c]
  have "\<exists>w1 w2. save_library_to_file usual_limits (str ''library.json'') ?w = Inr (Success, w1)
           \<and> load_library_from_file usual_limits (str ''library.json'') w1 = (Success, w2)
           \<and> session_library w2 = PList [dune, emma]"
    by (simp add: world_with_def)
  with a b c show ?thesis by (intro conjI) (erule conjE | assumption)+
qed

text \<open>
  C2 (as stated, refuted). A file that holds \<^verbatim>\<open>{}\<close>, or \<^verbatim>\<open>[{}]\<close>, is well-formed JSON and
  is not an array of book records. Loading it reports success and replaces the store,
  which held a book, by the decoded value; the claim says that it reports a failure and
  leaves the store as it was.
\<close>

theorem load_library_accepts_any_shape:
  "load_library_from_file usual_limits (str ''library.json'') (world_with (PList [dune]) (str ''{}''))
     = (Success, world_with (PDict []) (str ''{}''))
   \<and> load_library_from_file usual_limits (str ''library.json'') (world_with (PList [dune]) (str ''[{}]''))
     = (Success, world_with (PList [PDict []]) (str ''[{}]''))"
proof -
  have "1 \<le> load_depth usual_limits" "2 \<le> load_depth usual_limits"
    by (simp_all add: usual_limits_def)
  then show ?thesis
    by (simp add: load_library_from_file_def world_with_def loads_empty_object loads_no_fields)
qed

text \<open>
  C2 (amended). For a file that exists: when it cannot be read, or the decoder fails on
  its content, loading reports an error and leaves the store and the files exactly as
  they were; when the decoder returns a value, of whatever shape, loading reports
  success and the store is that value. The store is never left with a part of a document.
\<close>

theorem load_library_all_or_nothing:
  "(files w filename = Unreadable \<or> (files w filename = Text content \<and> json_loads lims content = None)
      \<longrightarrow> load_library_from_file lims filename w = (Error, w))
   \<and> (files w filename = Text content \<and> json_loads lims content = Some v
      \<longrightarrow> load_library_from_file lims filename w = (Success, w\<lparr>session_library := v\<rparr>))"
  by (auto simp: load_library_from_file_def)

theorem load_library_all_or_nothing_witness:
  "files (world_with (PList [dune]) (str ''[{\"title\": \"Dune\"}'')) (str ''library.json'')
       = Text (str ''[{\"title\": \"Dune\"}'')
   \<and> json_loads usual_limits (str ''[{\"title\": \"Dune\"}'') = None
   \<and> load_library_from_file usual_limits (str ''library.json'')
         (world_with (PList [dune]) (str ''[{\"title\": \"Dune\"}''))
       = (Error, world_with (PList [dune]) (str ''[{\"title\": \"Dune\"}''))
   \<and> files (world_with (PList [dune]) (str ''[]'')) (str ''library.json'') = Text (str ''[]'')
   \<and> json_loads usual_limits (str ''[]'') = Some (PList [])
   \<and> load_library_from_file usual_limits (str ''library.json'') (world_with (PList [dune]) (str ''[]''))
       = (Success, world_with (PList []) (str ''[]''))"
proof -
  let ?t = "str ''[{\"title\": \"Dune\"}''"
  have a: "files (world_with (PList [dune]) ?t) (str ''library.json'') = Text ?t"
    "files (world_with (PList [dune]) (str ''[]'')) (str ''library.json'') = Text (str ''[]'')"
    by (simp_all add: world_with_def)
  have b: "json_loads usual_limits ?t = None"
    by (rule loads_truncated)
  have c: "json_loads usual_limits (str ''[]'') = Some (PList [])"
    by (rule loads_empty_array) (simp add: usual_limits_def)
  from load_library_all_or_nothing [of "world_with (PList [dune]) ?t" "str ''library.json''" ?t
      usual_limits] a b
  have 1: "load_library_from_file usual_limits (str ''library.json'') (world_with (PList [dune]) ?t)
       = (Error, world_with (PList [dune]) ?t)"
    by simp
  from load_library_all_or_nothing [of "world_with (PList [dune]) (str ''[]'')" "str ''library.json''"
      "str ''[]''" usual_limits "PList []"] a c
  have 2: "load_library_from_file usual_limits (str ''library.json'') (world_with (PList [dune]) (str ''[]''))
       = (Success, world_with (PList []) (str ''[]''))"
    by (simp add: world_with_def)
  from a b c 1 2 show ?thesis by (intro conjI) (erule conjE | assumption)+
qed

text \<open>
  C10. On a store that is a list, \<open>search_books\<close> returns a result exactly when every
  element is a dictionary that binds the searched key to a string; otherwise it raises
  \<^verbatim>\<open>KeyError\<close>, \<^verbatim>\<open>TypeError\<close> or \<^verbatim>\<open>AttributeError\<close>. Such stores are reached by loading: a file
  that holds \<^verbatim>\<open>[{}]\<close> or \<^verbatim>\<open>[{"title": null}]\<close> is loaded with success, and the search by title
  then raises \<^verbatim>\<open>KeyError\<close> on the first store and \<^verbatim>\<open>AttributeError\<close> on the second.
\<close>

theorem search_books_total_iff:
  "((\<exists>r. search_books lower search_term search_by (PList bs) = Inr r)
       \<longleftrightarrow> (\<forall>b\<in>set bs. str_field b search_by \<noteq> None))
   \<and> (\<forall>e. search_books lower search_term search_by (PList bs) = Inl e
       \<longrightarrow> e = KeyError \<or> e = TypeError \<or> e = AttributeError)
   \<and> (2 \<le> load_depth lims \<longrightarrow>
        load_library_from_file lims filename (world_with store (str ''[{}]''))
          = (Success, world_with (PList [PDict []]) (str ''[{}]''))
        \<and> search_books lower search_term (str ''title'') (PList [PDict []]) = Inl KeyError
        \<and> load_library_from_file lims filename (world_with store (str ''[{\"title\": null}]''))
          = (Success, world_with (PList [PDict [(str ''title'', PNone)]]) (str ''[{\"title\": null}]''))
        \<and> search_books lower search_term (str ''title'') (PList [PDict [(str ''title'', PNone)]])
          = Inl AttributeError)"
proof (intro conjI allI impI)
  show "(\<exists>r. search_books lower search_term search_by (PList bs) = Inr r)
       \<longleftrightarrow> (\<forall>b\<in>set bs. str_field b search_by \<noteq> None)"
    by (simp add: search_books_def search_loop_total_iff)
next
  fix e
  assume "search_books lower search_term search_by (PList bs) = Inl e"
  then show "e = KeyError \<or> e = TypeError \<or> e = AttributeError"
    by (simp add: search_books_def search_loop_fault)
next
  assume "2 \<le> load_depth lims"
  then show "load_library_from_file lims filename (world_with store (str ''[{}]''))
          = (Success, world_with (PList [PDict []]) (str ''[{}]''))"
    by (simp add: load_library_from_file_def world_with_def loads_no_fields)
next
  show "search_books lower search_term (str ''title'') (PList [PDict []]) = Inl KeyError"
    by (simp add: search_books_def)
next
  assume "2 \<le> load_depth lims"
  then show "load_library_from_file lims filename (world_with store (str ''[{\"title\": null}]''))
          = (Success, world_with (PList [PDict [(str ''title'', PNone)]]) (str ''[{\"title\": null}]''))"
    by (simp add: load_library_from_file_def world_with_def loads_null_title)
next
  show "search_books lower search_term (str ''title'') (PList [PDict [(str ''title'', PNone)]])
          = Inl AttributeError"
    by (simp add: search_books_def)
qed

theorem search_books_total_iff_witness:
  "str_field dune (str ''title'') \<noteq> None \<and> str_field emma (str ''title'') \<noteq> None
   \<and> (\<exists>r. search_books ascii_lower (str ''e'') (str ''title'') (PList [dune, emma]) = Inr r)
   \<and> 2 \<le> load_depth usual_limits
   \<and> load_library_from_file usual_limits (str ''library.json'')
          (world_with (PList [dune, emma]) (str ''[{}]''))
        = (Success, world_with (PList [PDict []]) (str ''[{}]''))
   \<and> search_books ascii_lower (str ''e'') (str ''title'') (PList [PDict []]) = Inl KeyError"
proof -
  have h: "\<forall>b\<in>set [dune, emma]. str_field b (str ''title'') \<noteq> None"
    by (simp add: title_dune title_emma)
  have h': "str_field dune (str ''title'') \<noteq> None \<and> str_field emma (str ''title'') \<noteq> None"
    using h by simp
  have l: "2 \<le> load_depth usual_limits"
    by (simp add: usual_limits_def)
  note t = search_books_total_iff [where lower = ascii_lower and search_term = "str ''e''"
      and search_by = "str ''title''" and bs = "[dune, emma]" and lims = usual_limits
      and filename = "str ''library.json''" and store = "PList [dune, emma]"]
  from t h have 1: "\<exists>r. search_books ascii_lower (str ''e'') (str ''title'') (PList [dune, emma]) = Inr r"
    by (elim conjE) simp
  from t l have 2: "load_library_from_file usual_limits (str ''library.json'')
          (world_with (PList [dune, emma]) (str ''[{}]''))
        = (Success, world_with (PList [PDict []]) (str ''[{}]''))"
    by (elim conjE) simp
  from t l have 3: "search_books ascii_lower (str ''e'') (str ''title'') (PList [PDict []]) = Inl KeyError"
    by (elim conjE) simp
  from h' l 1 2 3 show ?thesis by (intro conjI) (erule conjE | assumption)+
qed

end
